theory Spec2Isabelle
  imports Main "HOL-Library.Multiset"
begin

section \<open>Strings of the host language\<close>

text \<open>
  The program is JavaScript. A string is modelled as a list of code units below 256,
  the Latin-1 range, and its \<open>length\<close> property as the length of the list. On that range
  the case mappings and the white space are those of the language.
\<close>

definition nl :: char where
  "nl = CHR 0x0A"

text \<open>
  The letters with a lower-case form are \<open>A\<close> to \<open>Z\<close> and U+00C0 to U+00DE but the
  multiplication sign U+00D7; the lower-case form is 32 further. Lower-casing does not
  depend on the context and stays in the range.
\<close>

definition isUpperLetter :: "char \<Rightarrow> bool" where
  "isUpperLetter c =
     ((65 \<le> (of_char c :: nat) \<and> (of_char c :: nat) \<le> 90) \<or>
      (192 \<le> (of_char c :: nat) \<and> (of_char c :: nat) \<le> 222 \<and> (of_char c :: nat) \<noteq> 215))"

definition lowerChar :: "char \<Rightarrow> char" where
  "lowerChar c = (if isUpperLetter c then char_of ((of_char c :: nat) + 32) else c)"

definition toLowerCase :: "string \<Rightarrow> string" where
  "toLowerCase s = map lowerChar s"

text \<open>
  Upper-casing leaves the range for three characters: the sharp s U+00DF becomes \<open>SS\<close>,
  U+00FF becomes U+0178 and the micro sign U+00B5 becomes U+039C. So the upper-cased
  string is given by its code units as numbers, and is compared with the code units of
  a string. The other letters with an upper-case form are \<open>a\<close> to \<open>z\<close> and U+00E0 to
  U+00FE but the division sign U+00F7; the upper-case form is 32 before.
\<close>

definition isLowerLetter :: "char \<Rightarrow> bool" where
  "isLowerLetter c =
     ((97 \<le> (of_char c :: nat) \<and> (of_char c :: nat) \<le> 122) \<or>
      (224 \<le> (of_char c :: nat) \<and> (of_char c :: nat) \<le> 254 \<and> (of_char c :: nat) \<noteq> 247))"

definition upperUnits :: "char \<Rightarrow> nat list" where
  "upperUnits c =
     (if (of_char c :: nat) = 223 then [83, 83]
      else if (of_char c :: nat) = 255 then [376]
      else if (of_char c :: nat) = 181 then [924]
      else if isLowerLetter c then [(of_char c :: nat) - 32]
      else [of_char c])"

definition toUpperCase :: "string \<Rightarrow> nat list" where
  "toUpperCase s = concat (map upperUnits s)"

definition codeUnits :: "string \<Rightarrow> nat list" where
  "codeUnits s = map of_char s"

text \<open>
  White space, the class \<open>\s\<close> of a pattern and what \<open>trim\<close> removes: tab, line feed,
  vertical tab, form feed, carriage return, space and the no-break space U+00A0.
\<close>

definition isSpace :: "char \<Rightarrow> bool" where
  "isSpace c =
     (c \<in> set [CHR 0x09, CHR 0x0A, CHR 0x0B, CHR 0x0C, CHR 0x0D, CHR 0x20, CHR 0xA0])"

text \<open>\<open>s.startsWith(t)\<close> and \<open>s.includes(t)\<close>.\<close>

fun startsWith :: "string \<Rightarrow> string \<Rightarrow> bool" where
  "startsWith s [] = True"
| "startsWith [] (c # t) = False"
| "startsWith (d # s) (c # t) = (d = c \<and> startsWith s t)"

fun includes_str :: "string \<Rightarrow> string \<Rightarrow> bool" where
  "includes_str [] t = (t = [])"
| "includes_str (d # s) t = (startsWith (d # s) t \<or> includes_str s t)"

text \<open>
  \<open>s.split(sep)\<close>: the pieces of \<open>s\<close> between the occurrences of \<open>sep\<close>, found from
  left to right without overlap. An empty separator splits into single characters.
\<close>

function split_from :: "string \<Rightarrow> string \<Rightarrow> string \<Rightarrow> string list" where
  "split_from sep piece [] = [piece]"
| "split_from sep piece (c # s) =
     (if sep \<noteq> [] \<and> startsWith (c # s) sep
      then piece # split_from sep [] (drop (length sep) (c # s))
      else split_from sep (piece @ [c]) s)"
  by pat_completeness auto
termination
  by (relation "measure (\<lambda>(sep, piece, s). length s)") auto

definition split_str :: "string \<Rightarrow> string \<Rightarrow> string list" where
  "split_str s sep = (if sep = [] then map (\<lambda>c. [c]) s else split_from sep [] s)"

text \<open>\<open>xs.join(sep)\<close>.\<close>

fun join :: "string list \<Rightarrow> string \<Rightarrow> string" where
  "join [] sep = []"
| "join [x] sep = x"
| "join (x # y # ys) sep = x @ sep @ join (y # ys) sep"

text \<open>
  \<open>xs.sort(cmp)\<close>: the sort of the language is stable, and places \<open>a\<close> before \<open>b\<close>
  when \<open>cmp(a, b)\<close> is negative. It is modelled by insertion from the right end. For a
  comparator that is not a consistent ordering the language leaves the order to the
  implementation; the model then still returns this insertion order.
\<close>

fun insert_by :: "('a \<Rightarrow> 'a \<Rightarrow> int) \<Rightarrow> 'a \<Rightarrow> 'a list \<Rightarrow> 'a list" where
  "insert_by cmp x [] = [x]"
| "insert_by cmp x (y # ys) =
     (if cmp x y \<le> 0 then x # y # ys else y # insert_by cmp x ys)"

fun sort_by :: "('a \<Rightarrow> 'a \<Rightarrow> int) \<Rightarrow> 'a list \<Rightarrow> 'a list" where
  "sort_by cmp [] = []"
| "sort_by cmp (x # xs) = insert_by cmp x (sort_by cmp xs)"

section \<open>Regular expressions\<close>

text \<open>
  \<open>new RegExp(keyword, 'gi')\<close> either throws a \<open>SyntaxError\<close> or returns a pattern
  object. The only use the program makes of the object is \<open>section.match(regex)\<close>,
  whose result is \<open>null\<close> or the array of all matches, of which it reads the length.
  So a pattern object is represented by the function from a subject string to the
  number of its matches (0 for \<open>null\<close>), and the constructor by a function from the
  pattern source to an error or such an object. The functions of the program take the
  constructor as their first argument, and what is proved for every constructor holds
  whatever the pattern language does.
\<close>

datatype error = SyntaxError | NotModelled

type_synonym regexp = "string \<Rightarrow> nat"

type_synonym regexp_constructor = "string \<Rightarrow> error + regexp"

text \<open>
  For concrete inputs the constructor is modelled on a fragment of the pattern
  language, with the flags \<open>gi\<close> and without the flag \<open>u\<close>: alternatives separated by
  \<open>|\<close>; the atoms \<open>.\<close>, a class \<open>[...]\<close> of plain characters and a single character;
  each atom followed by at most one of the quantifiers \<open>*\<close>, \<open>+\<close>, \<open>?\<close>, itself followed
  by \<open>?\<close> when it is lazy. The characters \<open>]\<close> and \<open>}\<close> outside a class stand for
  themselves. A pattern that uses anything else (an escape, a group, an assertion, a
  braced quantifier, a range or a negation in a class) is answered by \<open>NotModelled\<close>.
\<close>

datatype atom = Lit char | AnyChar | OneOf "char list"

datatype quantifier = Once | ZeroOrMore | OneOrMore | ZeroOrOne

type_synonym pterm = "atom \<times> quantifier \<times> bool"

type_synonym pattern = "pterm list list"

text \<open>The atom that starts with the character \<open>c\<close>, and what follows it.\<close>

definition parse_atom :: "char \<Rightarrow> string \<Rightarrow> error + atom \<times> string" where
  "parse_atom c s =
     (if c = CHR ''['' then
        (let body = takeWhile (\<lambda>d. d \<noteq> CHR '']'') s in
         if CHR 0x5C \<in> set s then Inl NotModelled
         else if CHR '']'' \<notin> set s then Inl SyntaxError
         else if CHR ''-'' \<in> set body \<or> startsWith body ''^'' then Inl NotModelled
         else Inr (OneOf body, tl (dropWhile (\<lambda>d. d \<noteq> CHR '']'') s)))
      else if c = CHR ''.'' then Inr (AnyChar, s)
      else Inr (Lit c, s))"

text \<open>The quantifier at the head of \<open>s\<close>, whether it is greedy, and what follows it.\<close>

definition quantifier_char :: "char \<Rightarrow> quantifier option" where
  "quantifier_char c =
     (if c = CHR ''*'' then Some ZeroOrMore
      else if c = CHR ''+'' then Some OneOrMore
      else if c = CHR ''?'' then Some ZeroOrOne
      else None)"

fun parse_quantifier :: "string \<Rightarrow> error + quantifier \<times> bool \<times> string" where
  "parse_quantifier [] = Inr (Once, True, [])"
| "parse_quantifier (c # s) =
     (case quantifier_char c of
        Some q \<Rightarrow>
          (case s of
             [] \<Rightarrow> Inr (q, True, [])
           | d # s' \<Rightarrow> if d = CHR ''?'' then Inr (q, False, s') else Inr (q, True, d # s'))
      | None \<Rightarrow> if c = CHR ''{'' then Inl NotModelled else Inr (Once, True, c # s))"

text \<open>
  The alternatives of a pattern, read from left to right: \<open>alt\<close> is the alternative being
  read and \<open>alts\<close> are the finished ones. A quantifier with no atom before it and a
  closing parenthesis with no group open are syntax errors.
\<close>

function parse_terms :: "string \<Rightarrow> pterm list \<Rightarrow> pattern \<Rightarrow> error + pattern" where
  "parse_terms [] alt alts = Inr (alts @ [alt])"
| "parse_terms (c # s) alt alts =
     (if c = CHR ''|'' then parse_terms s [] (alts @ [alt])
      else if quantifier_char c \<noteq> None \<or> c = CHR '')'' then Inl SyntaxError
      else if c \<in> set [CHR 0x5C, CHR ''('', CHR ''{'', CHR ''^'', CHR ''$''] then Inl NotModelled
      else
        (case parse_atom c s of
           Inl e \<Rightarrow> Inl e
         | Inr (a, s1) \<Rightarrow>
            (case parse_quantifier s1 of
               Inl e \<Rightarrow> Inl e
             | Inr (q, greedy, s2) \<Rightarrow> parse_terms s2 (alt @ [(a, q, greedy)]) alts)))"
  by pat_completeness auto

lemma parse_atom_length: "parse_atom c s = Inr (a, s1) \<Longrightarrow> length s1 \<le> length s"
  by (auto simp: parse_atom_def Let_def split: if_splits
      intro: le_trans [OF diff_le_self length_dropWhile_le])

lemma parse_quantifier_length: "parse_quantifier s1 = Inr (q, g, s2) \<Longrightarrow> length s2 \<le> length s1"
  by (cases s1) (auto split: option.splits list.splits if_splits)

termination parse_terms
proof (relation "measure (\<lambda>(s, alt, alts). length s)", goal_cases)
  case 1
  show ?case by simp
next
  case (2 c s alt alts)
  show ?case by simp
next
  case (3 c s alt alts x2 a s1 x2a q x2b greedy s2)
  then have "length s1 \<le> length s" and "length s2 \<le> length s1"
    using parse_atom_length [of c s a s1] parse_quantifier_length [of s1 q greedy s2] by auto
  then show ?case by simp
qed

definition parse_pattern :: "string \<Rightarrow> error + pattern" where
  "parse_pattern source = parse_terms source [] []"

text \<open>
  Matching ignores case: two characters match when their canonical forms are equal. The
  canonical form of a character is its upper-case form when that is a single code unit,
  unless the character is beyond U+007F and the upper-case form is not; otherwise it is
  the character itself. The dot matches every character but a line terminator.
\<close>

definition canonicalize :: "char \<Rightarrow> nat" where
  "canonicalize c =
     (case upperUnits c of
        [cu] \<Rightarrow> if 128 \<le> (of_char c :: nat) \<and> cu < 128 then of_char c else cu
      | _ \<Rightarrow> of_char c)"

fun atom_matches :: "atom \<Rightarrow> char \<Rightarrow> bool" where
  "atom_matches (Lit c) d = (canonicalize c = canonicalize d)"
| "atom_matches AnyChar d = (d \<noteq> CHR 0x0A \<and> d \<noteq> CHR 0x0D)"
| "atom_matches (OneOf cs) d = (\<exists>c \<in> set cs. canonicalize c = canonicalize d)"

text \<open>
  A matcher returns what is left of the subject after each way of matching, the way
  tried first by the backtracking search first. A greedy quantifier tries one more
  repetition before it tries to stop, a lazy one the other way round.
\<close>

fun match_star :: "atom \<Rightarrow> bool \<Rightarrow> string \<Rightarrow> string list" where
  "match_star a greedy [] = [[]]"
| "match_star a greedy (d # s) =
     (if atom_matches a d
      then (if greedy then match_star a greedy s @ [d # s] else (d # s) # match_star a greedy s)
      else [d # s])"

fun match_term :: "pterm \<Rightarrow> string \<Rightarrow> string list" where
  "match_term (a, q, greedy) [] = (if q = ZeroOrMore \<or> q = ZeroOrOne then [[]] else [])"
| "match_term (a, Once, greedy) (d # s) = (if atom_matches a d then [s] else [])"
| "match_term (a, ZeroOrMore, greedy) (d # s) = match_star a greedy (d # s)"
| "match_term (a, OneOrMore, greedy) (d # s) = (if atom_matches a d then match_star a greedy s else [])"
| "match_term (a, ZeroOrOne, greedy) (d # s) =
     (if atom_matches a d then (if greedy then [s, d # s] else [d # s, s]) else [d # s])"

fun match_alternative :: "pterm list \<Rightarrow> string \<Rightarrow> string list" where
  "match_alternative [] s = [s]"
| "match_alternative (t # ts) s = concat (map (match_alternative ts) (match_term t s))"

definition match_pattern :: "pattern \<Rightarrow> string \<Rightarrow> string list" where
  "match_pattern alts s = concat (map (\<lambda>alt. match_alternative alt s) alts)"

text \<open>
  \<open>s.match(regex)\<close> with the flag \<open>g\<close>: the search starts at the left, each match is
  the first one found at the leftmost position where there is one, and the search goes
  on where the match ended, or one character further when the match was empty.
\<close>

function count_matches :: "pattern \<Rightarrow> string \<Rightarrow> nat" where
  "count_matches p s =
     (case match_pattern p s of
        [] \<Rightarrow> (case s of [] \<Rightarrow> 0 | d # s' \<Rightarrow> count_matches p s')
      | r # rs \<Rightarrow>
          if length r < length s then Suc (count_matches p r)
          else (case s of [] \<Rightarrow> 1 | d # s' \<Rightarrow> Suc (count_matches p s')))"
  by pat_completeness auto
termination
  by (relation "measure (\<lambda>(p, s). length s)") auto

declare count_matches.simps [simp del]

definition RegExp_gi :: regexp_constructor where
  "RegExp_gi source =
     (case parse_pattern source of Inl e \<Rightarrow> Inl e | Inr p \<Rightarrow> Inr (count_matches p))"

section \<open>prioritizeSections\<close>

record scored =
  section' :: string
  score :: nat

text \<open>
  The body of \<open>keywords.forEach\<close>: one pattern is built from each keyword, in order,
  and the number of its matches in the section is added to the score. A keyword that
  is rejected by the constructor ends the whole call.
\<close>

fun scoreSection :: "regexp_constructor \<Rightarrow> string \<Rightarrow> string list \<Rightarrow> nat \<Rightarrow> error + nat" where
  "scoreSection RegExp sec [] sc = Inr sc"
| "scoreSection RegExp sec (keyword # keywords) sc =
     (case RegExp keyword of
        Inl e \<Rightarrow> Inl e
      | Inr regex \<Rightarrow> scoreSection RegExp sec keywords (sc + regex sec))"

text \<open>\<open>sections.map(section => ...)\<close>, the scoring step.\<close>

fun scoredSections :: "regexp_constructor \<Rightarrow> string list \<Rightarrow> string list \<Rightarrow> error + scored list" where
  "scoredSections RegExp [] keywords = Inr []"
| "scoredSections RegExp (sec # sections) keywords =
     (case scoreSection RegExp sec keywords 0 of
        Inl e \<Rightarrow> Inl e
      | Inr sc \<Rightarrow>
         (case scoredSections RegExp sections keywords of
            Inl e \<Rightarrow> Inl e
          | Inr rest \<Rightarrow> Inr (\<lparr>section' = sec, score = sc\<rparr> # rest)))"

text \<open>The comparator \<open>(a, b) => b.score - a.score\<close>.\<close>

definition byScore :: "scored \<Rightarrow> scored \<Rightarrow> int" where
  "byScore a b = int (score b) - int (score a)"

definition maxLength :: nat where
  "maxLength = 1500"

text \<open>
  The \<open>for\<close> loop over the sorted sections, with the running \<open>totalLength\<close> and the
  \<open>selectedSections\<close> so far. Both \<open>break\<close>s leave the loop with what is selected.
\<close>

fun selectLoop :: "nat \<Rightarrow> string list \<Rightarrow> scored list \<Rightarrow> string list" where
  "selectLoop totalLength selectedSections [] = selectedSections"
| "selectLoop totalLength selectedSections (x # rest) =
     (if totalLength + length (section' x) \<le> maxLength
      then selectLoop (totalLength + length (section' x) + 2) (selectedSections @ [section' x]) rest
      else if length selectedSections = 0 then selectedSections @ [section' x]
      else selectedSections)"

definition prioritizeSections ::
  "regexp_constructor \<Rightarrow> string list \<Rightarrow> string list \<Rightarrow> error + string list" where
  "prioritizeSections RegExp sections keywords =
     (case scoredSections RegExp sections keywords of
        Inl e \<Rightarrow> Inl e
      | Inr scoredList \<Rightarrow> Inr (selectLoop 0 [] (sort_by byScore scoredList)))"

text \<open>
  The length the claims measure a selection by: the lengths of the sections and two
  characters for every boundary between two of them.
\<close>

definition selectedLength :: "string list \<Rightarrow> nat" where
  "selectedLength xs = sum_list (map length xs) + 2 * (length xs - 1)"

section \<open>extractKeywords\<close>

text \<open>The characters of the class in \<open>.replace(/[.,\/#!$%\^&\*;:{}=\-_`~()]/g, '')\<close>.\<close>

definition punctuation :: "char list" where
  "punctuation = ''.,/#!$%^&*;:{}=-_'' @ [CHR 0x60] @ ''~()''"

definition removePunctuation :: "string \<Rightarrow> string" where
  "removePunctuation s = filter (\<lambda>c. c \<notin> set punctuation) s"

text \<open>
  \<open>.replace(/\s{2,}/g, ' ')\<close>: every maximal run of two or more white-space characters
  becomes one space; a white-space character that stands alone is kept as it is.
\<close>

function collapseSpaces :: "string \<Rightarrow> string" where
  "collapseSpaces [] = []"
| "collapseSpaces (c # s) =
     (if isSpace c \<and> takeWhile isSpace s \<noteq> []
      then CHR '' '' # collapseSpaces (dropWhile isSpace s)
      else c # collapseSpaces s)"
  by pat_completeness auto
termination
  by (relation "measure length") (auto intro: le_imp_less_Suc length_dropWhile_le)

definition commonWords :: "string list" where
  "commonWords = [''and'', ''the'', ''to'', ''of'', ''a'', ''in'', ''for'', ''is'', ''on'',
     ''that'', ''by'', ''this'', ''with'', ''i'', ''you'', ''it'', ''not'', ''or'', ''be'',
     ''are'', ''from'', ''at'', ''as'', ''your'', ''have'', ''more'', ''an'', ''was'']"

definition words_of :: "string \<Rightarrow> string list" where
  "words_of jobDescription =
     split_str (collapseSpaces (removePunctuation (toLowerCase jobDescription))) '' ''"

definition filteredWords :: "string \<Rightarrow> string list" where
  "filteredWords jobDescription =
     filter (\<lambda>word. length word > 3 \<and> word \<notin> set commonWords) (words_of jobDescription)"

text \<open>
  \<open>wordCount\<close> is an object created by \<open>{}\<close>. Its own properties are kept as a list of
  keys and values in the order of their creation. A value is a number, or it is not
  one: reading \<open>wordCount[word]\<close> for a word that is no own property yet finds what the
  object inherits, which for the word \<open>constructor\<close> is a function, so that
  \<open>(wordCount[word] || 0) + 1\<close> is then a string that is no numeral, and stays one when
  1 is added again. No other word made of lower-case letters and without an underscore
  names an inherited property.
\<close>

datatype count = Count nat | NotANumber

fun update_entry :: "string \<Rightarrow> count \<Rightarrow> (string \<times> count) list \<Rightarrow> (string \<times> count) list" where
  "update_entry k v [] = [(k, v)]"
| "update_entry k v (p # ps) = (if fst p = k then (k, v) # ps else p # update_entry k v ps)"

definition countWord :: "(string \<times> count) list \<Rightarrow> string \<Rightarrow> (string \<times> count) list" where
  "countWord wordCount word =
     update_entry word
       (case map_of wordCount word of
          Some (Count n) \<Rightarrow> Count (n + 1)
        | Some NotANumber \<Rightarrow> NotANumber
        | None \<Rightarrow> if word = ''constructor'' then NotANumber else Count 1)
       wordCount"

definition wordCount :: "string list \<Rightarrow> (string \<times> count) list" where
  "wordCount ws = foldl countWord [] ws"

text \<open>
  \<open>Object.entries\<close> lists the keys that are array indices first, in ascending numeric
  order, and the other keys after them in the order of their creation. An array index
  is the decimal numeral, without a leading zero, of a number below \<open>2^32 - 1\<close>.
\<close>

definition isDigit :: "char \<Rightarrow> bool" where
  "isDigit c = (48 \<le> (of_char c :: nat) \<and> (of_char c :: nat) \<le> 57)"

definition indexValue :: "string \<Rightarrow> nat" where
  "indexValue k = foldl (\<lambda>n c. 10 * n + ((of_char c :: nat) - 48)) 0 k"

definition isArrayIndex :: "string \<Rightarrow> bool" where
  "isArrayIndex k =
     (k \<noteq> [] \<and> list_all isDigit k \<and> (k = ''0'' \<or> hd k \<noteq> CHR ''0'') \<and>
      indexValue k < 4294967295)"

definition entries :: "(string \<times> count) list \<Rightarrow> (string \<times> count) list" where
  "entries obj =
     sort_key (\<lambda>e. indexValue (fst e)) (filter (\<lambda>e. isArrayIndex (fst e)) obj)
     @ filter (\<lambda>e. \<not> isArrayIndex (fst e)) obj"

text \<open>
  The comparator \<open>(a, b) => b[1] - a[1]\<close>. The difference is \<open>NaN\<close> when one of the
  two values is not a number, and the sort takes \<open>NaN\<close> for 0.
\<close>

definition byCount :: "string \<times> count \<Rightarrow> string \<times> count \<Rightarrow> int" where
  "byCount a b =
     (case (snd b, snd a) of
        (Count m, Count n) \<Rightarrow> int m - int n
      | _ \<Rightarrow> 0)"

text \<open>
  \<open>.sort((a, b) => b[1] - a[1])\<close>. When every count is a number the comparator is a
  consistent ordering and the result is that of the stable sort. When a count is not a
  number the comparator need not be consistent, and the language leaves the order to
  the engine: \<open>engineOrder\<close> stands for what the engine makes of the entries then. The
  functions that sort the entries take it as an argument.
\<close>

type_synonym engine_order = "(string \<times> count) list \<Rightarrow> (string \<times> count) list"

definition sortEntries :: "engine_order \<Rightarrow> (string \<times> count) list \<Rightarrow> (string \<times> count) list" where
  "sortEntries engineOrder es =
     (if list_all (\<lambda>e. snd e \<noteq> NotANumber) es then sort_by byCount es else engineOrder es)"

text \<open>An engine that sorts by insertion whatever the comparator, for closed instances.\<close>

definition insertionEngine :: engine_order where
  "insertionEngine es = sort_by byCount es"

definition extractKeywords :: "engine_order \<Rightarrow> string \<Rightarrow> string list" where
  "extractKeywords engineOrder jobDescription =
     map fst (take 15 (sortEntries engineOrder (entries (wordCount (filteredWords jobDescription)))))"

section \<open>processResume\<close>

text \<open>The sections of the resume that contain a keyword, whatever the case of the letters.\<close>

definition relevantSections :: "string \<Rightarrow> string list \<Rightarrow> string list" where
  "relevantSections resume jobKeywords =
     filter (\<lambda>sec. \<exists>keyword \<in> set jobKeywords.
                includes_str (toLowerCase sec) (toLowerCase keyword))
       (split_str resume [nl, nl])"

text \<open>
  The selection of \<open>processResume\<close> for a given list of keywords: the filter followed by
  \<open>prioritizeSections\<close>.
\<close>

definition selectSections ::
  "regexp_constructor \<Rightarrow> string \<Rightarrow> string list \<Rightarrow> error + string list" where
  "selectSections RegExp resume jobKeywords =
     prioritizeSections RegExp (relevantSections resume jobKeywords) jobKeywords"

definition header :: string where
  "header = []"

definition processResume ::
  "regexp_constructor \<Rightarrow> engine_order \<Rightarrow> string \<Rightarrow> string \<Rightarrow> error + string" where
  "processResume RegExp engineOrder resume jobDescription =
     (case selectSections RegExp resume (extractKeywords engineOrder jobDescription) of
        Inl e \<Rightarrow> Inl e
      | Inr selected \<Rightarrow> Inr (header @ join selected [nl, nl]))"

section \<open>convertToMarkdown\<close>

definition trim :: "string \<Rightarrow> string" where
  "trim s = rev (dropWhile isSpace (rev (dropWhile isSpace s)))"

text \<open>
  The body of the loop: what is appended to \<open>markdownContent\<close> for the section at
  index \<open>i\<close>. An empty section is skipped.
\<close>

definition markdownOf :: "nat \<Rightarrow> string \<Rightarrow> string" where
  "markdownOf i raw =
     (let sec = trim raw in
      if sec = [] then []
      else if toUpperCase sec = codeUnits sec \<and> length sec > 0 then
        (if i = 0 then ''# '' @ sec @ [nl, nl] else ''## '' @ sec @ [nl, nl])
      else if startsWith sec ''- '' then sec @ [nl, nl]
      else if includes_str sec [CHR '':'', nl] then
        (case split_str sec [CHR '':'', nl] of
           [] \<Rightarrow> []
         | title # content \<Rightarrow>
             ''### '' @ trim title @ [nl, nl] @ join content [CHR '':'', nl] @ [nl, nl])
      else sec @ [nl, nl])"

fun convertLoop :: "nat \<Rightarrow> string list \<Rightarrow> string \<Rightarrow> string" where
  "convertLoop i [] markdownContent = markdownContent"
| "convertLoop i (raw # sections) markdownContent =
     convertLoop (i + 1) sections (markdownContent @ markdownOf i raw)"

definition convertToMarkdown :: "string \<Rightarrow> string" where
  "convertToMarkdown text = convertLoop 0 (split_str text [nl, nl]) []"

section \<open>The count the specification speaks of\<close>

text \<open>
  From the words of the specification, not from the code: the number of occurrences of a
  keyword in a section, case ignored, counted as a global search counts them, from left
  to right and without overlap.
\<close>

function occurrences :: "string \<Rightarrow> string \<Rightarrow> nat" where
  "occurrences keyword [] = (if keyword = [] then 1 else 0)"
| "occurrences keyword (c # s) =
     (if startsWith (toLowerCase (c # s)) (toLowerCase keyword)
      then Suc (occurrences keyword (drop (length keyword - 1) s))
      else occurrences keyword s)"
  by pat_completeness auto
termination
  by (relation "measure (\<lambda>(keyword, s). length s)") auto

text \<open>The characters that a pattern does not read as themselves, and the term of a pattern
  for a character that is read as itself.\<close>

definition metacharacters :: "char list" where
  "metacharacters = ''|*+?()[{^$.'' @ [CHR 0x5C]"

definition lit :: "char \<Rightarrow> pterm" where
  "lit c = (Lit c, Once, True)"

section \<open>The orders of the keywords\<close>

text \<open>
  From the words of the specification: \<open>a\<close> occurs in the stream of tokens before the
  first occurrence of \<open>b\<close>; and the order claimed for the keywords, the more frequent
  token first and, of two tokens of one frequency, the one seen first.
\<close>

definition seen_before :: "string list \<Rightarrow> string \<Rightarrow> string \<Rightarrow> bool" where
  "seen_before ws a b = (a \<in> set (takeWhile (\<lambda>w. w \<noteq> b) ws))"

definition frequency_order :: "string list \<Rightarrow> string \<Rightarrow> string \<Rightarrow> bool" where
  "frequency_order ws a b =
     (count_list ws b < count_list ws a \<or>
      (count_list ws a = count_list ws b \<and> seen_before ws a b))"

text \<open>
  The order that \<open>Object.entries\<close> gives the keys: array indices first, by their value,
  then the other keys as they were first seen; and the order of the keywords that comes
  of it.
\<close>

definition entries_order :: "string list \<Rightarrow> string \<Rightarrow> string \<Rightarrow> bool" where
  "entries_order ws a b =
     ((isArrayIndex a \<and> isArrayIndex b \<and> indexValue a \<le> indexValue b) \<or>
      (isArrayIndex a \<and> \<not> isArrayIndex b) \<or>
      (\<not> isArrayIndex a \<and> \<not> isArrayIndex b \<and> seen_before ws a b))"

definition ranked_order :: "string list \<Rightarrow> string \<Rightarrow> string \<Rightarrow> bool" where
  "ranked_order ws a b =
     (count_list ws b < count_list ws a \<or>
      (count_list ws a = count_list ws b \<and> entries_order ws a b))"

section \<open>Properties\<close>

subsection \<open>The sort and the shape of the selection\<close>

lemma mset_insert_by: "mset (insert_by cmp x xs) = add_mset x (mset xs)"
  by (induction xs) auto

lemma mset_sort_by: "mset (sort_by cmp xs) = mset xs"
  by (induction xs) (auto simp: mset_insert_by)

lemma set_sort_by: "set (sort_by cmp xs) = set xs"
  using mset_sort_by [of cmp xs] by (metis set_mset_mset)

lemma insert_by_insort_key:
  assumes "\<And>y. y \<in> set ys \<Longrightarrow> (cmp x y \<le> 0) = (k x \<le> k y)"
  shows "insert_by cmp x ys = insort_key k x ys"
  using assms by (induction ys) auto

lemma sort_by_sort_key:
  assumes "\<And>a b. a \<in> set xs \<Longrightarrow> b \<in> set xs \<Longrightarrow> (cmp a b \<le> 0) = (k a \<le> k b)"
  shows "sort_by cmp xs = sort_key k xs"
  using assms
proof (induction xs)
  case Nil
  show ?case by simp
next
  case (Cons x xs)
  have ih: "sort_by cmp xs = sort_key k xs"
    using Cons by simp
  have "insert_by cmp x (sort_key k xs) = insort_key k x (sort_key k xs)"
    by (rule insert_by_insort_key) (simp add: Cons.prems)
  with ih show ?case by simp
qed

lemma sort_by_byScore: "sort_by byScore xs = sort_key (\<lambda>p. - int (score p)) xs"
  by (rule sort_by_sort_key) (simp add: byScore_def)

lemma sorted_byScore: "sorted_wrt (\<lambda>a b. score b \<le> score a) (sort_by byScore xs)"
proof -
  have "sorted (map (\<lambda>p. - int (score p)) (sort_key (\<lambda>p. - int (score p)) xs))"
    by (rule sorted_sort_key)
  then show ?thesis
    by (simp add: sort_by_byScore sorted_map)
qed

lemma stable_byScore:
  "filter (\<lambda>p. score p = k) (sort_by byScore xs) = filter (\<lambda>p. score p = k) xs"
proof -
  have "filter (\<lambda>p. - int (score p) = - int k) (sort_key (\<lambda>p. - int (score p)) xs)
      = filter (\<lambda>p. - int (score p) = - int k) xs"
    by (rule sort_key_stable)
  then show ?thesis by (simp add: sort_by_byScore)
qed

lemma selectLoop_prefix: "\<exists>n. selectLoop t sel rest = sel @ map section' (take n rest)"
proof (induction rest arbitrary: t sel)
  case Nil
  show ?case by simp
next
  case (Cons x rest)
  show ?case
  proof (cases "t + length (section' x) \<le> maxLength")
    case True
    from Cons.IH [of "t + length (section' x) + 2" "sel @ [section' x]"]
    obtain n where "selectLoop (t + length (section' x) + 2) (sel @ [section' x]) rest
        = (sel @ [section' x]) @ map section' (take n rest)" ..
    with True have "selectLoop t sel (x # rest) = sel @ map section' (take (Suc n) (x # rest))"
      by simp
    then show ?thesis ..
  next
    case False
    show ?thesis
    proof (cases "length sel = 0")
      case True
      with False have "selectLoop t sel (x # rest) = sel @ map section' (take (Suc 0) (x # rest))"
        by simp
      then show ?thesis ..
    next
      case nonempty: False
      with False have "selectLoop t sel (x # rest) = sel @ map section' (take 0 (x # rest))"
        by simp
      then show ?thesis ..
    qed
  qed
qed

lemma scoredSections_sections:
  "scoredSections RegExp secs keywords = Inr scoredList \<Longrightarrow> map section' scoredList = secs"
  by (induction secs arbitrary: scoredList) (auto split: sum.splits)

lemma prioritizeSections_shape:
  assumes "prioritizeSections RegExp secs keywords = Inr out"
  shows "\<exists>scoredList n. scoredSections RegExp secs keywords = Inr scoredList \<and>
     map section' scoredList = secs \<and>
     out = map section' (take n (sort_by byScore scoredList))"
proof -
  from assms obtain scoredList where
    sc: "scoredSections RegExp secs keywords = Inr scoredList" and
    out: "out = selectLoop 0 [] (sort_by byScore scoredList)"
    by (auto simp: prioritizeSections_def split: sum.splits)
  from selectLoop_prefix [of 0 "[]" "sort_by byScore scoredList"] out
  obtain n where "out = map section' (take n (sort_by byScore scoredList))" by auto
  with sc scoredSections_sections [OF sc] show ?thesis by blast
qed

lemma mset_take_subset: "mset (take n xs) \<subseteq># mset xs"
proof -
  have "mset xs = mset (take n xs) + mset (drop n xs)"
    by (metis append_take_drop_id mset_append)
  then show ?thesis by simp
qed

lemma prioritizeSections_submultiset:
  assumes "prioritizeSections RegExp secs keywords = Inr out"
  shows "mset out \<subseteq># mset secs"
proof -
  from prioritizeSections_shape [OF assms] obtain scoredList n where
    secs: "map section' scoredList = secs" and
    out: "out = map section' (take n (sort_by byScore scoredList))" by blast
  have "mset out \<subseteq># image_mset section' (mset (sort_by byScore scoredList))"
    unfolding out mset_map by (rule image_mset_subseteq_mono) (rule mset_take_subset)
  also have "\<dots> = mset secs"
    by (simp add: mset_sort_by flip: secs)
  finally show ?thesis .
qed

subsection \<open>The character budget of the selection\<close>

lemma selectLoop_budget:
  assumes "t = sum_list (map length sel) + 2 * length sel"
    and "sel \<noteq> [] \<Longrightarrow> selectedLength sel \<le> maxLength"
  shows "selectedLength (selectLoop t sel rest) \<le> maxLength \<or>
    (sel = [] \<and> (\<exists>x rest'. rest = x # rest' \<and> maxLength < length (section' x) \<and>
       selectLoop t sel rest = [section' x]))"
  using assms
proof (induction rest arbitrary: t sel)
  case Nil
  then show ?case by (cases "sel = []") (simp_all add: selectedLength_def)
next
  case (Cons x rest)
  show ?case
  proof (cases "t + length (section' x) \<le> maxLength")
    case True
    let ?sel = "sel @ [section' x]"
    have t': "t + length (section' x) + 2 = sum_list (map length ?sel) + 2 * length ?sel"
      using Cons.prems(1) by simp
    have fits: "selectedLength ?sel \<le> maxLength"
      using True Cons.prems(1) by (simp add: selectedLength_def)
    from Cons.IH [OF t'] fits
    have "selectedLength (selectLoop (t + length (section' x) + 2) ?sel rest) \<le> maxLength"
      by auto
    with True show ?thesis by simp
  next
    case False
    show ?thesis
    proof (cases "sel = []")
      case True
      with False Cons.prems(1) show ?thesis by simp
    next
      case nonempty: False
      with False Cons.prems(2) show ?thesis by simp
    qed
  qed
qed

lemma selectLoop_oversized:
  "maxLength < length (section' x) \<Longrightarrow> selectLoop 0 [] (x # rest) = [section' x]"
  by simp

text \<open>
  Claim C1. Whatever the pattern constructor, the sections and the keywords: when
  \<open>prioritizeSections\<close> returns, the lengths of the returned sections plus two characters
  for each boundary between them sum to at most 1500, unless the first section of the
  sorted list is longer than 1500 characters; and whenever that first section is longer
  than 1500 characters, exactly that section is returned.
\<close>

theorem prioritizeSections_budget:
  assumes "prioritizeSections RegExp sections keywords = Inr out"
  shows "(selectedLength out \<le> 1500 \<or>
      (\<exists>scoredList. scoredSections RegExp sections keywords = Inr scoredList \<and>
         sort_by byScore scoredList \<noteq> [] \<and>
         out = [section' (hd (sort_by byScore scoredList))] \<and>
         1500 < length (section' (hd (sort_by byScore scoredList))))) \<and>
    (\<forall>scoredList. scoredSections RegExp sections keywords = Inr scoredList \<and>
         sort_by byScore scoredList \<noteq> [] \<and>
         1500 < length (section' (hd (sort_by byScore scoredList))) \<longrightarrow>
       out = [section' (hd (sort_by byScore scoredList))])"
proof -
  from assms obtain scoredList where
    sc: "scoredSections RegExp sections keywords = Inr scoredList" and
    out: "out = selectLoop 0 [] (sort_by byScore scoredList)"
    by (auto simp: prioritizeSections_def split: sum.splits)
  have "selectedLength out \<le> maxLength \<or>
    (\<exists>x rest'. sort_by byScore scoredList = x # rest' \<and> maxLength < length (section' x) \<and>
       out = [section' x])"
    using selectLoop_budget [of 0 "[]" "sort_by byScore scoredList"] out by auto
  then have budget: "selectedLength out \<le> 1500 \<or>
      (\<exists>scoredList. scoredSections RegExp sections keywords = Inr scoredList \<and>
         sort_by byScore scoredList \<noteq> [] \<and>
         out = [section' (hd (sort_by byScore scoredList))] \<and>
         1500 < length (section' (hd (sort_by byScore scoredList))))"
    using sc by (auto simp: maxLength_def)
  have "out = [section' (hd (sort_by byScore scoredList))]"
    if "sort_by byScore scoredList \<noteq> []"
      and "1500 < length (section' (hd (sort_by byScore scoredList)))"
  proof -
    from that(1) obtain x rest where xs: "sort_by byScore scoredList = x # rest"
      by (cases "sort_by byScore scoredList") auto
    with that(2) have "maxLength < length (section' x)" by (simp add: maxLength_def)
    then show ?thesis unfolding out xs by (simp add: selectLoop_oversized)
  qed
  with budget sc show ?thesis by auto
qed

theorem prioritizeSections_budget_witness:
  "prioritizeSections RegExp_gi [''a python'', ''python python''] [''python'']
     = Inr [''python python'', ''a python''] \<and>
   selectedLength [''python python'', ''a python''] \<le> 1500 \<and>
   prioritizeSections RegExp_gi [replicate 1501 (CHR ''a''), ''b''] []
     = Inr [replicate 1501 (CHR ''a'')]"
proof -
  have h: "prioritizeSections RegExp_gi [''a python'', ''python python''] [''python'']
     = Inr [''python python'', ''a python'']"
    by code_simp
  have sc: "scoredSections RegExp_gi [replicate 1501 (CHR ''a''), ''b''] []
     = Inr [\<lparr>section' = replicate 1501 (CHR ''a''), score = 0\<rparr>, \<lparr>section' = ''b'', score = 0\<rparr>]"
    by simp
  have srt: "sort_by byScore
       [\<lparr>section' = replicate 1501 (CHR ''a''), score = 0\<rparr>, \<lparr>section' = ''b'', score = 0\<rparr>]
     = [\<lparr>section' = replicate 1501 (CHR ''a''), score = 0\<rparr>, \<lparr>section' = ''b'', score = 0\<rparr>]"
    by (simp add: byScore_def)
  obtain out where big: "prioritizeSections RegExp_gi [replicate 1501 (CHR ''a''), ''b''] [] = Inr out"
    by (simp add: prioritizeSections_def sc)
  from prioritizeSections_budget [OF big] sc srt
  have "out = [replicate 1501 (CHR ''a'')]" by simp
  with big have b: "prioritizeSections RegExp_gi [replicate 1501 (CHR ''a''), ''b''] []
     = Inr [replicate 1501 (CHR ''a'')]" by simp
  from prioritizeSections_budget [OF h] have
    "selectedLength [''python python'', ''a python''] \<le> 1500 \<or>
      (\<exists>scoredList.
         scoredSections RegExp_gi [''a python'', ''python python''] [''python''] = Inr scoredList \<and>
         sort_by byScore scoredList \<noteq> [] \<and>
         [''python python'', ''a python''] = [section' (hd (sort_by byScore scoredList))] \<and>
         1500 < length (section' (hd (sort_by byScore scoredList))))" ..
  then have "selectedLength [''python python'', ''a python''] \<le> 1500" by auto
  with h b show ?thesis by simp
qed

subsection \<open>The selection is a part of the resume\<close>

text \<open>
  Claim C10. Whatever the pattern constructor: when the selection returns, every
  returned string is one of the pieces of the resume split at two line feeds, unchanged,
  and no piece is returned more often than it occurs in the split.
\<close>

theorem selectSections_verbatim:
  assumes "selectSections RegExp resume keywords = Inr out"
  shows "set out \<subseteq> set (split_str resume [nl, nl]) \<and>
         mset out \<subseteq># mset (split_str resume [nl, nl])"
proof -
  have "mset out \<subseteq># mset (relevantSections resume keywords)"
    using assms unfolding selectSections_def by (rule prioritizeSections_submultiset)
  also have "\<dots> \<subseteq># mset (split_str resume [nl, nl])"
    unfolding relevantSections_def mset_filter by (rule multiset_filter_subset)
  finally have sub: "mset out \<subseteq># mset (split_str resume [nl, nl])" .
  then have "set out \<subseteq> set (split_str resume [nl, nl])"
    by (metis set_mset_mono set_mset_mset)
  with sub show ?thesis by simp
qed

theorem selectSections_verbatim_witness:
  "selectSections RegExp_gi ''kept Python\<newline>\<newline>dropped\<newline>\<newline>python python'' [''python'']
     = Inr [''python python'', ''kept Python''] \<and>
   set [''python python'', ''kept Python'']
     \<subseteq> set (split_str ''kept Python\<newline>\<newline>dropped\<newline>\<newline>python python'' [nl, nl]) \<and>
   mset [''python python'', ''kept Python'']
     \<subseteq># mset (split_str ''kept Python\<newline>\<newline>dropped\<newline>\<newline>python python'' [nl, nl])"
proof -
  have h: "selectSections RegExp_gi
      ''kept Python\<newline>\<newline>dropped\<newline>\<newline>python python'' [''python'']
     = Inr [''python python'', ''kept Python'']"
    by code_simp
  show ?thesis using selectSections_verbatim [OF h] h by simp
qed

subsection \<open>The order of the selection\<close>

text \<open>
  Claim C7. Whatever the pattern constructor: when \<open>prioritizeSections\<close> returns, the
  result is the texts of the first \<open>n\<close> entries, for some \<open>n\<close>, of the scored sections
  sorted by score; in the sorted list no score is followed by a greater one, and the
  sections of one score stand in the order in which the scoring step produced them.
  The result need not follow the order of the document: in the example the second
  section is returned before the first.
\<close>

theorem prioritizeSections_order:
  "(\<forall>RegExp secs keywords out.
      prioritizeSections RegExp secs keywords = Inr out \<longrightarrow>
      (\<exists>scoredList ranked n.
         scoredSections RegExp secs keywords = Inr scoredList \<and>
         ranked = sort_by byScore scoredList \<and>
         out = map section' (take n ranked) \<and>
         sorted_wrt (\<lambda>a b. score b \<le> score a) ranked \<and>
         (\<forall>k. filter (\<lambda>p. score p = k) ranked = filter (\<lambda>p. score p = k) scoredList)))
   \<and> prioritizeSections RegExp_gi [''a python'', ''python python''] [''python'']
       = Inr [''python python'', ''a python'']"
proof (intro conjI allI impI)
  fix RegExp secs kws out
  assume "prioritizeSections RegExp secs kws = Inr out"
  from prioritizeSections_shape [OF this] obtain scoredList n where
    "scoredSections RegExp secs kws = Inr scoredList"
    "out = map section' (take n (sort_by byScore scoredList))" by blast
  then show "\<exists>scoredList ranked n.
         scoredSections RegExp secs kws = Inr scoredList \<and>
         ranked = sort_by byScore scoredList \<and>
         out = map section' (take n ranked) \<and>
         sorted_wrt (\<lambda>a b. score b \<le> score a) ranked \<and>
         (\<forall>k. filter (\<lambda>p. score p = k) ranked = filter (\<lambda>p. score p = k) scoredList)"
    using sorted_byScore [of scoredList] stable_byScore [of _ scoredList] by blast
next
  show "prioritizeSections RegExp_gi [''a python'', ''python python''] [''python'']
       = Inr [''python python'', ''a python'']"
    by code_simp
qed

theorem prioritizeSections_order_witness:
  "prioritizeSections RegExp_gi [''x java'', ''java java'', ''y java''] [''java'']
     = Inr [''java java'', ''x java'', ''y java''] \<and>
   (\<exists>scoredList ranked n.
      scoredSections RegExp_gi [''x java'', ''java java'', ''y java''] [''java''] = Inr scoredList \<and>
      ranked = sort_by byScore scoredList \<and>
      [''java java'', ''x java'', ''y java''] = map section' (take n ranked) \<and>
      sorted_wrt (\<lambda>a b. score b \<le> score a) ranked \<and>
      (\<forall>k. filter (\<lambda>p. score p = k) ranked = filter (\<lambda>p. score p = k) scoredList))"
proof -
  have h: "prioritizeSections RegExp_gi [''x java'', ''java java'', ''y java''] [''java'']
     = Inr [''java java'', ''x java'', ''y java'']"
    by code_simp
  from prioritizeSections_order have "\<forall>RegExp secs keywords out.
      prioritizeSections RegExp secs keywords = Inr out \<longrightarrow>
      (\<exists>scoredList ranked n.
         scoredSections RegExp secs keywords = Inr scoredList \<and>
         ranked = sort_by byScore scoredList \<and>
         out = map section' (take n ranked) \<and>
         sorted_wrt (\<lambda>a b. score b \<le> score a) ranked \<and>
         (\<forall>k. filter (\<lambda>p. score p = k) ranked = filter (\<lambda>p. score p = k) scoredList))" ..
  with h show ?thesis by blast
qed

subsection \<open>Every selected section contains a keyword\<close>

lemma relevantSections_contains:
  "sec \<in> set (relevantSections resume keywords) \<Longrightarrow>
   \<exists>keyword \<in> set keywords. includes_str (toLowerCase sec) (toLowerCase keyword)"
  by (auto simp: relevantSections_def)

lemma scoreSection_no_keywords: "scoreSection RegExp sec [] sc = Inr sc"
  by simp

lemma scoredSections_no_keywords:
  "scoredSections RegExp secs [] = Inr (map (\<lambda>sec. \<lparr>section' = sec, score = 0\<rparr>) secs)"
  by (induction secs) auto

text \<open>
  Claim C2. Whatever the pattern constructor: every section that the selection returns
  contains one of the keywords, case ignored; and when the list of keywords is empty, or
  no section of the resume contains a keyword, the selection returns the empty list. An
  empty job description has no keywords, and its result is the empty text.
\<close>

theorem selectSections_keyword_match:
  "(selectSections RegExp resume keywords = Inr out \<longrightarrow>
      (\<forall>sec \<in> set out. \<exists>keyword \<in> set keywords.
         includes_str (toLowerCase sec) (toLowerCase keyword)))
   \<and> (keywords = [] \<or>
        (\<forall>sec \<in> set (split_str resume [nl, nl]). \<forall>keyword \<in> set keywords.
           \<not> includes_str (toLowerCase sec) (toLowerCase keyword))
      \<longrightarrow> selectSections RegExp resume keywords = Inr [])
   \<and> extractKeywords engineOrder [] = []
   \<and> processResume RegExp engineOrder resume [] = Inr []"
proof (intro conjI impI)
  assume ret: "selectSections RegExp resume keywords = Inr out"
  then have "mset out \<subseteq># mset (relevantSections resume keywords)"
    unfolding selectSections_def by (rule prioritizeSections_submultiset)
  then have "set out \<subseteq> set (relevantSections resume keywords)"
    by (metis set_mset_mono set_mset_mset)
  then show "\<forall>sec \<in> set out. \<exists>keyword \<in> set keywords.
         includes_str (toLowerCase sec) (toLowerCase keyword)"
    using relevantSections_contains by blast
next
  assume "keywords = [] \<or>
        (\<forall>sec \<in> set (split_str resume [nl, nl]). \<forall>keyword \<in> set keywords.
           \<not> includes_str (toLowerCase sec) (toLowerCase keyword))"
  then have "relevantSections resume keywords = []"
    by (auto simp: relevantSections_def filter_empty_conv)
  then show "selectSections RegExp resume keywords = Inr []"
    by (simp add: selectSections_def prioritizeSections_def)
next
  show kw: "extractKeywords engineOrder [] = []"
    by (simp add: extractKeywords_def sortEntries_def filteredWords_def words_of_def
        toLowerCase_def removePunctuation_def split_str_def wordCount_def entries_def)
  have "relevantSections resume [] = []"
    by (simp add: relevantSections_def)
  then show "processResume RegExp engineOrder resume [] = Inr []"
    by (simp add: processResume_def kw selectSections_def prioritizeSections_def header_def)
qed

theorem selectSections_keyword_match_witness:
  "selectSections RegExp_gi ''kept Python\<newline>\<newline>dropped\<newline>\<newline>python python'' [''python'']
     = Inr [''python python'', ''kept Python''] \<and>
   (\<exists>keyword \<in> set [''python'']. includes_str (toLowerCase ''python python'') (toLowerCase keyword)) \<and>
   (\<exists>keyword \<in> set [''python'']. includes_str (toLowerCase ''kept Python'') (toLowerCase keyword)) \<and>
   selectSections RegExp_gi ''kept Python\<newline>\<newline>dropped'' [] = Inr [] \<and>
   selectSections RegExp_gi ''kept Python\<newline>\<newline>dropped'' [''[abc''] = Inr [] \<and>
   selectSections RegExp_gi (''CAF'' @ [CHR 0xC9]) [''caf'' @ [CHR 0xE9]]
     = Inr [''CAF'' @ [CHR 0xC9]] \<and>
   includes_str (toLowerCase (''CAF'' @ [CHR 0xC9])) (toLowerCase (''caf'' @ [CHR 0xE9]))"
proof -
  have h: "selectSections RegExp_gi
      ''kept Python\<newline>\<newline>dropped\<newline>\<newline>python python'' [''python'']
     = Inr [''python python'', ''kept Python'']"
    by code_simp
  have none: "\<forall>sec \<in> set (split_str ''kept Python\<newline>\<newline>dropped'' [nl, nl]).
      \<forall>keyword \<in> set [''[abc'']. \<not> includes_str (toLowerCase sec) (toLowerCase keyword)"
    by code_simp
  have cafe: "selectSections RegExp_gi (''CAF'' @ [CHR 0xC9]) [''caf'' @ [CHR 0xE9]]
     = Inr [''CAF'' @ [CHR 0xC9]]"
    by code_simp
  note thm0 = selectSections_keyword_match
    [of RegExp_gi "''CAF'' @ [CHR 0xC9]" "[''caf'' @ [CHR 0xE9]]" "[''CAF'' @ [CHR 0xC9]]"]
  from thm0 cafe have d: "includes_str (toLowerCase (''CAF'' @ [CHR 0xC9]))
      (toLowerCase (''caf'' @ [CHR 0xE9]))" by simp
  note thm1 = selectSections_keyword_match
    [of RegExp_gi "''kept Python\<newline>\<newline>dropped\<newline>\<newline>python python''" "[''python'']"
        "[''python python'', ''kept Python'']"]
  note thm2 = selectSections_keyword_match [of RegExp_gi "''kept Python\<newline>\<newline>dropped''" "[]"]
  note thm3 = selectSections_keyword_match [of RegExp_gi "''kept Python\<newline>\<newline>dropped''" "[''[abc'']"]
  from thm1 h have a: "\<forall>sec \<in> set [''python python'', ''kept Python'']. \<exists>keyword \<in> set [''python''].
         includes_str (toLowerCase sec) (toLowerCase keyword)" by blast
  from thm2 have b: "selectSections RegExp_gi ''kept Python\<newline>\<newline>dropped'' [] = Inr []" by blast
  from thm3 none have c: "selectSections RegExp_gi ''kept Python\<newline>\<newline>dropped'' [''[abc''] = Inr []"
    by blast
  from a h b c cafe d show ?thesis by simp
qed

subsection \<open>Keywords are patterns\<close>

text \<open>The definitions that the evaluation of \<open>extractKeywords\<close> at a given text unfolds.\<close>

lemmas js_defs = nl_def isUpperLetter_def lowerChar_def
  toLowerCase_def isSpace_def split_str_def sortEntries_def
  punctuation_def removePunctuation_def commonWords_def words_of_def filteredWords_def
  countWord_def wordCount_def isDigit_def indexValue_def isArrayIndex_def entries_def
  byCount_def extractKeywords_def

lemma selectLoop_first:
  "selectLoop 0 [] (x # rest) \<noteq> [] \<and>
   (maxLength < length (section' x) \<longrightarrow> selectLoop 0 [] (x # rest) = [section' x])"
proof (cases "length (section' x) \<le> maxLength")
  case True
  from selectLoop_prefix [of "length (section' x) + 2" "[section' x]" rest]
  obtain n where "selectLoop (length (section' x) + 2) [section' x] rest
      = [section' x] @ map section' (take n rest)" ..
  with True show ?thesis by simp
next
  case False
  then show ?thesis by simp
qed

lemma scoreSection_accepted:
  assumes "\<And>k. k \<in> set kws \<Longrightarrow> \<exists>regex. RegExp k = Inr regex"
  shows "\<exists>n. scoreSection RegExp sec kws sc = Inr n"
  using assms
proof (induction kws arbitrary: sc)
  case Nil
  show ?case by simp
next
  case (Cons k kws)
  from Cons.prems [of k] obtain regex where "RegExp k = Inr regex" by auto
  moreover have "\<exists>n. scoreSection RegExp sec kws (sc + regex sec) = Inr n"
    by (rule Cons.IH) (simp add: Cons.prems)
  ultimately show ?case by simp
qed

lemma scoredSections_accepted:
  assumes "\<And>k. k \<in> set kws \<Longrightarrow> \<exists>regex. RegExp k = Inr regex"
  shows "\<exists>scoredList. scoredSections RegExp secs kws = Inr scoredList"
proof (induction secs)
  case Nil
  show ?case by simp
next
  case (Cons sec secs)
  from scoreSection_accepted [of kws RegExp sec 0] assms
  obtain n where "scoreSection RegExp sec kws 0 = Inr n" by blast
  with Cons show ?case by auto
qed

text \<open>
  The selection keeps at least one section when every keyword is accepted as a pattern
  and at least one section contains a keyword.
\<close>

theorem selectSections_at_least_one:
  assumes "\<forall>keyword \<in> set keywords. \<exists>regex. RegExp keyword = Inr regex"
    and "relevantSections resume keywords \<noteq> []"
  shows "\<exists>out. selectSections RegExp resume keywords = Inr out \<and> out \<noteq> []"
proof -
  from scoredSections_accepted [of "keywords" RegExp "relevantSections resume keywords"] assms(1)
  obtain scoredList where
    sc: "scoredSections RegExp (relevantSections resume keywords) keywords = Inr scoredList"
    by blast
  from scoredSections_sections [OF sc] assms(2) have "scoredList \<noteq> []" by auto
  then have "mset (sort_by byScore scoredList) \<noteq> {#}"
    by (simp add: mset_sort_by)
  then obtain x rest where "sort_by byScore scoredList = x # rest"
    by (cases "sort_by byScore scoredList") auto
  with selectLoop_first [of x rest]
  have "selectLoop 0 [] (sort_by byScore scoredList) \<noteq> []" by simp
  with sc show ?thesis
    by (simp add: selectSections_def prioritizeSections_def)
qed

theorem selectSections_at_least_one_witness:
  "\<exists>out. selectSections RegExp_gi ''kept Python\<newline>\<newline>dropped'' [''python''] = Inr out \<and> out \<noteq> []"
proof -
  have 1: "\<forall>keyword \<in> set [''python'']. \<exists>regex. RegExp_gi keyword = Inr regex"
    by (simp add: RegExp_gi_def parse_pattern_def parse_atom_def quantifier_char_def)
  have 2: "relevantSections ''kept Python\<newline>\<newline>dropped'' [''python''] \<noteq> []"
    by code_simp
  from selectSections_at_least_one [OF 1 2] show ?thesis .
qed

text \<open>
  Claim C3. The claim promises a non-empty result whenever a section contains a keyword.
  At the resume \<open>[abc\<close> with the keyword \<open>[abc\<close> the section contains the keyword, and
  the selection ends with a syntax error instead: the keyword is taken as a pattern, and
  its class is not closed.
\<close>

theorem selectSections_unmatched_bracket:
  "relevantSections ''[abc'' [''[abc''] = [''[abc''] \<and>
   selectSections RegExp_gi ''[abc'' [''[abc''] = Inl SyntaxError"
  by code_simp

text \<open>
  Claim C5. The claim equates the score with the number of occurrences of the keywords.
  At the section \<open>a+bc\<close> with the keyword \<open>a+bc\<close> the keyword occurs once and the score
  is 0: as a pattern the keyword asks for one or more \<open>a\<close> followed by \<open>bc\<close>.
\<close>

theorem score_differs_from_occurrences:
  "scoredSections RegExp_gi [''a+bc''] [''a+bc''] = Inr [\<lparr>section' = ''a+bc'', score = 0\<rparr>] \<and>
   sum_list (map (\<lambda>keyword. occurrences keyword ''a+bc'') [''a+bc'']) = 1"
  by code_simp

text \<open>
  Claim C9. The removal of punctuation keeps the characters \<open>[ ] + ? |\<close> and the
  backslash, so \<open>extractKeywords\<close> returns keywords such as \<open>[abc\<close> and \<open>a+bc\<close>,
  whatever the engine. With
  the first, \<open>processResume\<close> and \<open>prioritizeSections\<close> end with a syntax error instead
  of a result. With the second, the number of matches differs from the number of
  occurrences in both directions.
\<close>

theorem unescaped_keywords:
  "removePunctuation (''[]+?|'' @ [CHR 0x5C]) = ''[]+?|'' @ [CHR 0x5C] \<and>
   extractKeywords engineOrder ''[abc'' = [''[abc''] \<and>
   processResume RegExp_gi engineOrder ''[abc'' ''[abc'' = Inl SyntaxError \<and>
   prioritizeSections RegExp_gi [''abcd''] [''[abc''] = Inl SyntaxError \<and>
   extractKeywords engineOrder ''a+bc'' = [''a+bc''] \<and>
   scoreSection RegExp_gi ''a+bc'' [''a+bc''] 0 = Inr 0 \<and>
   occurrences ''a+bc'' ''a+bc'' = 1 \<and>
   scoreSection RegExp_gi ''aabc abc'' [''a+bc''] 0 = Inr 2 \<and>
   occurrences ''a+bc'' ''aabc abc'' = 0"
proof -
  have p: "removePunctuation (''[]+?|'' @ [CHR 0x5C]) = ''[]+?|'' @ [CHR 0x5C]"
    by (simp add: removePunctuation_def punctuation_def)
  have k1: "extractKeywords engineOrder ''[abc'' = [''[abc'']"
    by (simp add: js_defs)
  have k2: "extractKeywords engineOrder ''a+bc'' = [''a+bc'']"
    by (simp add: js_defs)
  have s1: "selectSections RegExp_gi ''[abc'' [''[abc''] = Inl SyntaxError"
    by code_simp
  have r1: "processResume RegExp_gi engineOrder ''[abc'' ''[abc'' = Inl SyntaxError"
    by (simp add: processResume_def k1 s1)
  have r2: "prioritizeSections RegExp_gi [''abcd''] [''[abc''] = Inl SyntaxError"
    by code_simp
  have c1: "scoreSection RegExp_gi ''a+bc'' [''a+bc''] 0 = Inr 0"
    by code_simp
  have c2: "occurrences ''a+bc'' ''a+bc'' = 1"
    by code_simp
  have c3: "scoreSection RegExp_gi ''aabc abc'' [''a+bc''] 0 = Inr 2"
    by code_simp
  have c4: "occurrences ''a+bc'' ''aabc abc'' = 0"
    by code_simp
  from p k1 r1 r2 k2 c1 c2 c3 c4 show ?thesis by blast
qed

subsection \<open>convertToMarkdown\<close>

lemma convertLoop_concat:
  "convertLoop i secs md = md @ concat (map (\<lambda>(j, raw). markdownOf j raw) (enumerate i secs))"
  by (induction secs arbitrary: i md) simp_all

lemma split_from_not_Nil: "split_from sep piece s \<noteq> []"
  by (induction sep piece s rule: split_from.induct) auto

lemma markdownOf_blank_line:
  assumes "trim raw \<noteq> []"
  shows "\<exists>body. markdownOf i raw = body @ [nl, nl]"
proof -
  let ?sec = "trim raw"
  consider (head) "toUpperCase ?sec = codeUnits ?sec"
    | (item) "toUpperCase ?sec \<noteq> codeUnits ?sec" "startsWith ?sec ''- ''"
    | (titled) "toUpperCase ?sec \<noteq> codeUnits ?sec" "\<not> startsWith ?sec ''- ''"
        "includes_str ?sec [CHR '':'', nl]"
    | (plain) "toUpperCase ?sec \<noteq> codeUnits ?sec" "\<not> startsWith ?sec ''- ''"
        "\<not> includes_str ?sec [CHR '':'', nl]"
    by blast
  then show ?thesis
  proof cases
    case head
    with assms have "markdownOf i raw = ((if i = 0 then ''# '' else ''## '') @ ?sec) @ [nl, nl]"
      by (simp add: markdownOf_def Let_def)
    then show ?thesis ..
  next
    case item
    with assms have "markdownOf i raw = ?sec @ [nl, nl]"
      by (simp add: markdownOf_def Let_def)
    then show ?thesis ..
  next
    case titled
    obtain title content where sp: "split_str ?sec [CHR '':'', nl] = title # content"
      using split_from_not_Nil [of "[CHR '':'', nl]" "[]" ?sec]
      by (cases "split_str ?sec [CHR '':'', nl]") (auto simp: split_str_def)
    with titled assms have "markdownOf i raw
        = (''### '' @ trim title @ [nl, nl] @ join content [CHR '':'', nl]) @ [nl, nl]"
      by (simp add: markdownOf_def Let_def)
    then show ?thesis ..
  next
    case plain
    with assms have "markdownOf i raw = ?sec @ [nl, nl]"
      by (simp add: markdownOf_def Let_def)
    then show ?thesis ..
  qed
qed

text \<open>
  Claim C8, as amended. The result is the concatenation of what the sections of the
  split contribute, each at its index. A section is trimmed first, and one that is empty
  after that contributes nothing. A trimmed section that is not empty and equals its own
  upper-casing becomes a heading, of level 1 at index 0 and of level 2 at any other
  index. A trimmed section that starts with \<open>- \<close> and does not equal its own
  upper-casing is passed through. Every contribution of a section that is not empty
  after trimming ends with two line feeds.
\<close>

theorem convertToMarkdown_sections:
  "convertToMarkdown text
     = concat (map (\<lambda>(i, raw). markdownOf i raw) (enumerate 0 (split_str text [nl, nl])))
   \<and> (trim raw = [] \<longrightarrow> markdownOf i raw = [])
   \<and> (trim raw \<noteq> [] \<and> toUpperCase (trim raw) = codeUnits (trim raw) \<longrightarrow>
        markdownOf i raw = (if i = 0 then ''# '' else ''## '') @ trim raw @ [nl, nl])
   \<and> (toUpperCase (trim raw) \<noteq> codeUnits (trim raw) \<and> startsWith (trim raw) ''- '' \<longrightarrow>
        markdownOf i raw = trim raw @ [nl, nl])
   \<and> (trim raw \<noteq> [] \<longrightarrow> (\<exists>body. markdownOf i raw = body @ [nl, nl]))"
proof (intro conjI impI)
  show "convertToMarkdown text
     = concat (map (\<lambda>(i, raw). markdownOf i raw) (enumerate 0 (split_str text [nl, nl])))"
    by (simp add: convertToMarkdown_def convertLoop_concat)
next
  assume "trim raw = []"
  then show "markdownOf i raw = []" by (simp add: markdownOf_def)
next
  assume "trim raw \<noteq> [] \<and> toUpperCase (trim raw) = codeUnits (trim raw)"
  then show "markdownOf i raw = (if i = 0 then ''# '' else ''## '') @ trim raw @ [nl, nl]"
    by (simp add: markdownOf_def Let_def)
next
  assume a: "toUpperCase (trim raw) \<noteq> codeUnits (trim raw) \<and> startsWith (trim raw) ''- ''"
  then have "trim raw \<noteq> []" by auto
  with a show "markdownOf i raw = trim raw @ [nl, nl]"
    by (simp add: markdownOf_def Let_def)
next
  assume "trim raw \<noteq> []"
  then show "\<exists>body. markdownOf i raw = body @ [nl, nl]"
    by (rule markdownOf_blank_line)
qed

theorem convertToMarkdown_sections_witness:
  "convertToMarkdown ''JOHN DOE\<newline>\<newline> SKILLS\<newline>\<newline>- python\<newline>\<newline>  ''
     = ''# JOHN DOE\<newline>\<newline>## SKILLS\<newline>\<newline>- python\<newline>\<newline>'' \<and>
   (\<exists>body. markdownOf 0 ''Work:\<newline>did things'' = body @ [nl, nl]) \<and>
   convertToMarkdown [CHR 0xF1] = [CHR 0xF1, nl, nl] \<and>
   convertToMarkdown [CHR 0xA0] = []"
proof -
  let ?text = "''JOHN DOE\<newline>\<newline> SKILLS\<newline>\<newline>- python\<newline>\<newline>  ''"
  have sp: "split_str ?text [nl, nl] = [''JOHN DOE'', '' SKILLS'', ''- python'', ''  '']"
    by code_simp
  have t0: "trim ''JOHN DOE'' = ''JOHN DOE''" by code_simp
  have t1: "trim '' SKILLS'' = ''SKILLS''" by code_simp
  have t2: "trim ''- python'' = ''- python''" by code_simp
  have t3: "trim ''  '' = []" by code_simp
  have t4: "trim ''Work:\<newline>did things'' \<noteq> []" by code_simp
  have u0: "toUpperCase ''JOHN DOE'' = codeUnits ''JOHN DOE''" by code_simp
  have u1: "toUpperCase ''SKILLS'' = codeUnits ''SKILLS''" by code_simp
  have u2: "toUpperCase ''- python'' \<noteq> codeUnits ''- python''" by code_simp
  have m0: "markdownOf 0 ''JOHN DOE'' = ''# JOHN DOE'' @ [nl, nl]"
    using convertToMarkdown_sections [of ?text "''JOHN DOE''" 0] t0 u0 by simp
  have m1: "markdownOf (Suc 0) '' SKILLS'' = ''## SKILLS'' @ [nl, nl]"
    using convertToMarkdown_sections [of ?text "'' SKILLS''" "Suc 0"] t1 u1 by simp
  have m2: "markdownOf (Suc (Suc 0)) ''- python'' = ''- python'' @ [nl, nl]"
    using convertToMarkdown_sections [of ?text "''- python''" "Suc (Suc 0)"] t2 u2 by simp
  have m3: "markdownOf (Suc (Suc (Suc 0))) ''  '' = []"
    using convertToMarkdown_sections [of ?text "''  ''" "Suc (Suc (Suc 0))"] t3 by simp
  have m4: "\<exists>body. markdownOf 0 ''Work:\<newline>did things'' = body @ [nl, nl]"
    using convertToMarkdown_sections [of ?text "''Work:\<newline>did things''" 0] t4 by blast
  have "convertToMarkdown ?text
     = concat (map (\<lambda>(i, raw). markdownOf i raw) (enumerate 0 (split_str ?text [nl, nl])))"
    using convertToMarkdown_sections [of ?text "[]" 0] by blast
  then have "convertToMarkdown ?text
     = concat (map (\<lambda>(i, raw). markdownOf i raw)
         (enumerate 0 [''JOHN DOE'', '' SKILLS'', ''- python'', ''  '']))"
    by (simp only: sp)
  then have a: "convertToMarkdown ?text
      = ''# JOHN DOE\<newline>\<newline>## SKILLS\<newline>\<newline>- python\<newline>\<newline>''"
    by (simp add: m0 m1 m2 m3 nl_def)
  have b: "convertToMarkdown [CHR 0xF1] = [CHR 0xF1, nl, nl]" by code_simp
  have c: "convertToMarkdown [CHR 0xA0] = []" by code_simp
  from a m4 b c show ?thesis by blast
qed

text \<open>
  Claim C8, as stated, fails: the text \<open>- AWS\<close> is one section that starts with \<open>- \<close>,
  and it is not passed through but becomes a heading of level 1, since it equals its own
  upper-casing. The empty text is one section that equals its own upper-casing, and it
  becomes no heading.
\<close>

theorem list_section_becomes_heading:
  "split_str ''- AWS'' [nl, nl] = [''- AWS''] \<and>
   startsWith ''- AWS'' ''- '' \<and>
   convertToMarkdown ''- AWS'' = ''# - AWS'' @ [nl, nl] \<and>
   convertToMarkdown ''- AWS'' \<noteq> ''- AWS'' @ [nl, nl] \<and>
   split_str [] [nl, nl] = [[]] \<and>
   toUpperCase [] = codeUnits [] \<and>
   convertToMarkdown [] = []"
  by code_simp

subsection \<open>The keywords are well formed\<close>

lemma lowerChar_idem: "lowerChar (lowerChar c) = lowerChar c"
  by (auto simp: lowerChar_def isUpperLetter_def)

lemma lowerChar_space: "lowerChar (CHR '' '') = CHR '' ''"
  by (simp add: lowerChar_def isUpperLetter_def)

lemma set_collapseSpaces: "set (collapseSpaces s) \<subseteq> insert (CHR '' '') (set s)"
proof (induction s rule: collapseSpaces.induct)
  case 1
  show ?case by simp
next
  case (2 c s)
  show ?case
  proof (cases "isSpace c \<and> takeWhile isSpace s \<noteq> []")
    case True
    with 2 have "set (collapseSpaces (dropWhile isSpace s)) \<subseteq> insert (CHR '' '') (set (dropWhile isSpace s))"
      by simp
    moreover have "set (dropWhile isSpace s) \<subseteq> set s"
      by (rule set_dropWhileD [THEN subsetI])
    ultimately show ?thesis using True by auto
  next
    case False
    with 2 show ?thesis by auto
  qed
qed

lemma set_split_from:
  "p \<in> set (split_from sep piece s) \<Longrightarrow> set p \<subseteq> set piece \<union> set s"
proof (induction sep piece s rule: split_from.induct)
  case (1 sep piece)
  then show ?case by simp
next
  case (2 sep piece c s)
  show ?case
  proof (cases "sep \<noteq> [] \<and> startsWith (c # s) sep")
    case True
    with "2.prems" have "p = piece \<or> p \<in> set (split_from sep [] (drop (length sep) (c # s)))"
      by simp
    then show ?thesis
    proof
      assume "p = piece"
      then show ?thesis by auto
    next
      assume "p \<in> set (split_from sep [] (drop (length sep) (c # s)))"
      with "2.IH"(1) True have "set p \<subseteq> set (drop (length sep) (c # s))" by simp
      also have "\<dots> \<subseteq> set (c # s)" by (rule set_drop_subset)
      finally show ?thesis by auto
    qed
  next
    case False
    with "2.prems" have "p \<in> set (split_from sep (piece @ [c]) s)" by simp
    with "2.IH"(2) False have "set p \<subseteq> set (piece @ [c]) \<union> set s" by simp
    then show ?thesis by auto
  qed
qed

lemma set_split_str: "p \<in> set (split_str s sep) \<Longrightarrow> set p \<subseteq> set s"
  using set_split_from [of p sep "[]" s] by (auto simp: split_str_def split: if_splits)

lemma words_of_lowercase:
  assumes "w \<in> set (words_of jobDescription)"
  shows "toLowerCase w = w"
proof -
  let ?low = "toLowerCase jobDescription"
  have "set w \<subseteq> set (collapseSpaces (removePunctuation ?low))"
    using assms unfolding words_of_def by (rule set_split_str)
  also have "\<dots> \<subseteq> insert (CHR '' '') (set (removePunctuation ?low))"
    by (rule set_collapseSpaces)
  also have "\<dots> \<subseteq> insert (CHR '' '') (set ?low)"
    by (auto simp: removePunctuation_def)
  finally have "\<And>c. c \<in> set w \<Longrightarrow> lowerChar c = c"
    by (auto simp: toLowerCase_def lowerChar_idem lowerChar_space)
  then show ?thesis
    by (simp add: toLowerCase_def map_idI)
qed

lemma keys_update_entry:
  "map fst (update_entry k v ps) = (if k \<in> fst ` set ps then map fst ps else map fst ps @ [k])"
  by (induction ps) auto

lemma keys_countWord:
  "map fst (countWord obj w) = (if w \<in> fst ` set obj then map fst obj else map fst obj @ [w])"
  by (simp add: countWord_def keys_update_entry)

lemma keys_foldl_countWord:
  "distinct (map fst obj) \<Longrightarrow>
   distinct (map fst (foldl countWord obj ws)) \<and>
   set (map fst (foldl countWord obj ws)) = set (map fst obj) \<union> set ws"
proof (induction ws arbitrary: obj)
  case Nil
  then show ?case by simp
next
  case (Cons w ws)
  have "distinct (map fst (countWord obj w))"
    using Cons.prems by (auto simp: keys_countWord)
  from Cons.IH [OF this] show ?case
    by (auto simp: keys_countWord split: if_splits)
qed

lemma keys_wordCount:
  "distinct (map fst (wordCount ws))" "set (map fst (wordCount ws)) = set ws"
  using keys_foldl_countWord [of "[]" ws] by (simp_all add: wordCount_def)

lemma mset_entries: "mset (entries obj) = mset obj"
  by (simp add: entries_def)

lemma mset_sortEntries:
  assumes "\<And>es. mset (engineOrder es) = mset es"
  shows "mset (sortEntries engineOrder es) = mset es"
  by (simp add: sortEntries_def mset_sort_by assms)

lemma mset_insertionEngine: "mset (insertionEngine es) = mset es"
  by (simp add: insertionEngine_def mset_sort_by)

lemma mset_ranked_keys:
  assumes "\<And>es. mset (engineOrder es) = mset es"
  shows "mset (map fst (sortEntries engineOrder (entries obj))) = mset (map fst obj)"
  unfolding mset_map mset_sortEntries [of engineOrder, OF assms] mset_entries ..

text \<open>
  Claim C4. For every text, and whatever order the engine gives the entries when a count
  is not a number, as long as it gives the same entries: \<open>extractKeywords\<close> returns at
  most 15 entries; every entry equals its own lower-casing, is longer than 3 characters
  and is none of the common words; and no entry occurs twice.
\<close>

theorem extractKeywords_wellformed:
  assumes "\<And>es. mset (engineOrder es) = mset es"
  shows "length (extractKeywords engineOrder jobDescription) \<le> 15 \<and>
   (\<forall>keyword \<in> set (extractKeywords engineOrder jobDescription).
      toLowerCase keyword = keyword \<and> 3 < length keyword \<and> keyword \<notin> set commonWords) \<and>
   distinct (extractKeywords engineOrder jobDescription)"
proof -
  let ?ws = "filteredWords jobDescription"
  let ?ranked = "sortEntries engineOrder (entries (wordCount ?ws))"
  have eq: "extractKeywords engineOrder jobDescription = take 15 (map fst ?ranked)"
    by (simp add: extractKeywords_def take_map)
  have m: "mset (map fst ?ranked) = mset (map fst (wordCount ?ws))"
    by (rule mset_ranked_keys) (rule assms)
  have "distinct (map fst ?ranked)"
    using m keys_wordCount(1) [of ?ws] by (metis mset_eq_imp_distinct_iff)
  then have d: "distinct (extractKeywords engineOrder jobDescription)"
    unfolding eq by (rule distinct_take)
  have "set (map fst ?ranked) = set ?ws"
    using m keys_wordCount(2) [of ?ws] by (metis set_mset_mset)
  then have sub: "set (extractKeywords engineOrder jobDescription) \<subseteq> set ?ws"
    unfolding eq using set_take_subset [of 15 "map fst ?ranked"] by simp
  have "\<forall>keyword \<in> set ?ws.
      toLowerCase keyword = keyword \<and> 3 < length keyword \<and> keyword \<notin> set commonWords"
    by (auto simp: filteredWords_def words_of_lowercase)
  with sub d show ?thesis
    by (auto simp: eq)
qed

theorem extractKeywords_wellformed_witness:
  "extractKeywords insertionEngine ''Senior Python developer, Python and SQL''
     = [''python'', ''senior'', ''developer''] \<and>
   length [''python'', ''senior'', ''developer''] \<le> 15 \<and>
   toLowerCase ''python'' = ''python'' \<and> 3 < length ''python'' \<and>
   ''python'' \<notin> set commonWords \<and>
   distinct [''python'', ''senior'', ''developer''] \<and>
   filteredWords (CHR 0xC9 # ''COLE '' @ CHR 0xE9 # ''cole'' @ CHR 0xA0 # CHR 0xA0 # ''java'')
     = [CHR 0xE9 # ''cole'', CHR 0xE9 # ''cole'', ''java''] \<and>
   distinct (extractKeywords insertionEngine ''alpha constructor beta beta'')"
proof -
  have w: "filteredWords ''Senior Python developer, Python and SQL''
     = [''senior'', ''python'', ''developer'', ''python'']"
    by code_simp
  have c: "wordCount [''senior'', ''python'', ''developer'', ''python'']
     = [(''senior'', Count 1), (''python'', Count 2), (''developer'', Count 1)]"
    by code_simp
  have e: "entries [(''senior'', Count 1), (''python'', Count 2), (''developer'', Count 1)]
     = [(''senior'', Count 1), (''python'', Count 2), (''developer'', Count 1)]"
    by (simp add: entries_def isArrayIndex_def isDigit_def)
  have s: "sortEntries insertionEngine
       [(''senior'', Count 1), (''python'', Count 2), (''developer'', Count 1)]
     = [(''python'', Count 2), (''senior'', Count 1), (''developer'', Count 1)]"
    by (simp add: sortEntries_def byCount_def)
  have h: "extractKeywords insertionEngine ''Senior Python developer, Python and SQL''
     = [''python'', ''senior'', ''developer'']"
    unfolding extractKeywords_def w c e s by simp
  have latin: "filteredWords
       (CHR 0xC9 # ''COLE '' @ CHR 0xE9 # ''cole'' @ CHR 0xA0 # CHR 0xA0 # ''java'')
     = [CHR 0xE9 # ''cole'', CHR 0xE9 # ''cole'', ''java'']"
    by code_simp
  note wf = extractKeywords_wellformed [of insertionEngine, OF mset_insertionEngine]
  from wf [of "''alpha constructor beta beta''"]
  have nan: "distinct (extractKeywords insertionEngine ''alpha constructor beta beta'')" by blast
  show ?thesis
    using wf [of "''Senior Python developer, Python and SQL''"] latin nan
    unfolding h by simp
qed

subsection \<open>The order of the keywords\<close>

lemma map_of_update_entry: "map_of (update_entry k v ps) = (map_of ps)(k \<mapsto> v)"
  by (induction ps) auto

lemma wordCount_snoc: "wordCount (ws @ [w]) = countWord (wordCount ws) w"
  by (simp add: wordCount_def)

lemma map_of_wordCount:
  assumes "''constructor'' \<notin> set ws"
  shows "map_of (wordCount ws) k = (if k \<in> set ws then Some (Count (count_list ws k)) else None)"
  using assms
proof (induction ws arbitrary: k rule: rev_induct)
  case Nil
  show ?case by (simp add: wordCount_def)
next
  case (snoc w ws)
  then have ih: "\<And>k. map_of (wordCount ws) k
      = (if k \<in> set ws then Some (Count (count_list ws k)) else None)"
    by simp
  from snoc.prems have "w \<noteq> ''constructor''" by auto
  then show ?case
    by (simp add: wordCount_snoc countWord_def map_of_update_entry ih)
qed

lemma entry_wordCount:
  assumes "''constructor'' \<notin> set ws" and "e \<in> set (wordCount ws)"
  shows "snd e = Count (count_list ws (fst e))"
proof -
  have "map_of (wordCount ws) (fst e) = Some (snd e)"
    using assms(2) map_of_eq_Some_iff [OF keys_wordCount(1), of ws "fst e" "snd e"] by simp
  with map_of_wordCount [OF assms(1), of "fst e"] show ?thesis
    by (auto split: if_splits)
qed

lemma seen_before_snoc_old: "b \<in> set ws \<Longrightarrow> seen_before (ws @ [w]) a b = seen_before ws a b"
  by (simp add: seen_before_def takeWhile_append1 [where x = b])

lemma seen_before_snoc_new:
  assumes "w \<notin> set ws" and "a \<in> set ws"
  shows "seen_before (ws @ [w]) a w"
proof -
  have "takeWhile (\<lambda>v. v \<noteq> w) (ws @ [w]) = ws @ takeWhile (\<lambda>v. v \<noteq> w) [w]"
    using assms(1) by (intro takeWhile_append2) auto
  with assms(2) show ?thesis by (simp add: seen_before_def)
qed

lemma keys_wordCount_order: "sorted_wrt (seen_before ws) (map fst (wordCount ws))"
proof (induction ws rule: rev_induct)
  case Nil
  show ?case by (simp add: wordCount_def)
next
  case (snoc w ws)
  have keys: "fst ` set (wordCount ws) = set ws"
    using keys_wordCount(2) [of ws] by simp
  have old: "sorted_wrt (seen_before (ws @ [w])) (map fst (wordCount ws))"
    using snoc.IH
    by (rule sorted_wrt_mono_rel [rotated]) (simp add: keys seen_before_snoc_old)
  show ?case
  proof (cases "w \<in> set ws")
    case True
    with old keys show ?thesis
      by (simp add: wordCount_snoc keys_countWord)
  next
    case False
    with old keys show ?thesis
      by (simp add: wordCount_snoc keys_countWord sorted_wrt_append seen_before_snoc_new)
  qed
qed

lemma entries_sorted:
  assumes "sorted_wrt (seen_before ws) (map fst obj)"
  shows "sorted_wrt (\<lambda>a b. entries_order ws (fst a) (fst b)) (entries obj)"
proof -
  let ?R = "\<lambda>a b. entries_order ws (fst a) (fst b)"
  let ?idx = "sort_key (\<lambda>e. indexValue (fst e)) (filter (\<lambda>e. isArrayIndex (fst e)) obj)"
  let ?rest = "filter (\<lambda>e. \<not> isArrayIndex (fst e)) obj"
  have "sorted (map (\<lambda>e. indexValue (fst e)) ?idx)" by (rule sorted_sort_key)
  then have "sorted_wrt (\<lambda>a b. indexValue (fst a) \<le> indexValue (fst b)) ?idx"
    by (simp add: sorted_map)
  then have 1: "sorted_wrt ?R ?idx"
    by (rule sorted_wrt_mono_rel [rotated]) (auto simp: entries_order_def)
  have "sorted_wrt (\<lambda>a b. seen_before ws (fst a) (fst b)) obj"
    using assms by (simp add: sorted_wrt_map)
  then have "sorted_wrt (\<lambda>a b. seen_before ws (fst a) (fst b)) ?rest"
    by (rule sorted_wrt_filter)
  then have 2: "sorted_wrt ?R ?rest"
    by (rule sorted_wrt_mono_rel [rotated]) (auto simp: entries_order_def)
  have 3: "\<forall>a \<in> set ?idx. \<forall>b \<in> set ?rest. ?R a b"
    by (auto simp: entries_order_def)
  from 1 2 3 show ?thesis
    unfolding entries_def sorted_wrt_append by blast
qed

lemma insort_key_lex:
  assumes "sorted_wrt (\<lambda>a b. k a < k b \<or> (k a = k b \<and> R a b)) ys"
    and "\<forall>y \<in> set ys. R x y"
  shows "sorted_wrt (\<lambda>a b. k a < k b \<or> (k a = k b \<and> R a b)) (insort_key k x ys)"
  using assms
proof (induction ys)
  case Nil
  show ?case by simp
next
  case (Cons y ys)
  show ?case
  proof (cases "k x \<le> k y")
    case True
    have "\<forall>z \<in> set (y # ys). k x < k z \<or> (k x = k z \<and> R x z)"
    proof
      fix z
      assume z: "z \<in> set (y # ys)"
      have "k y \<le> k z" using z Cons.prems(1) by auto
      with True have "k x \<le> k z" by simp
      moreover have "R x z" using z Cons.prems(2) by auto
      ultimately show "k x < k z \<or> (k x = k z \<and> R x z)" by auto
    qed
    with True Cons.prems(1) show ?thesis by simp
  next
    case False
    have "sorted_wrt (\<lambda>a b. k a < k b \<or> (k a = k b \<and> R a b)) (insort_key k x ys)"
      using Cons by simp
    with False Cons.prems(1) show ?thesis
      by (auto simp: set_insort_key)
  qed
qed

lemma sort_key_lex:
  assumes "sorted_wrt R xs"
  shows "sorted_wrt (\<lambda>a b. k a < k b \<or> (k a = k b \<and> R a b)) (sort_key k xs)"
  using assms
proof (induction xs)
  case Nil
  show ?case by simp
next
  case (Cons x xs)
  then have "sorted_wrt (\<lambda>a b. k a < k b \<or> (k a = k b \<and> R a b)) (sort_key k xs)"
    and "\<forall>y \<in> set (sort_key k xs). R x y"
    by simp_all
  then show ?case
    by (simp add: insort_key_lex)
qed

lemma sort_by_byCount:
  assumes "\<And>e. e \<in> set es \<Longrightarrow> snd e = Count (c (fst e))"
  shows "sort_by byCount es = sort_key (\<lambda>e. - int (c (fst e))) es"
  by (rule sort_by_sort_key) (simp add: byCount_def assms)

lemma extractKeywords_numeric:
  assumes "''constructor'' \<notin> set (filteredWords jobDescription)"
  shows "extractKeywords engineOrder jobDescription
    = map fst (take 15 (sort_by byCount (entries (wordCount (filteredWords jobDescription)))))"
proof -
  let ?ws = "filteredWords jobDescription"
  have "\<And>e. e \<in> set (entries (wordCount ?ws)) \<Longrightarrow> snd e \<noteq> NotANumber"
    using entry_wordCount [OF assms] mset_entries [of "wordCount ?ws"]
    by (metis count.distinct(1) set_mset_mset)
  then have "list_all (\<lambda>e. snd e \<noteq> NotANumber) (entries (wordCount ?ws))"
    by (simp add: list_all_iff)
  then show ?thesis
    by (simp add: extractKeywords_def sortEntries_def)
qed

lemma extractKeywords_ranked:
  assumes "''constructor'' \<notin> set (filteredWords jobDescription)"
  shows "sorted_wrt (ranked_order (filteredWords jobDescription))
    (extractKeywords engineOrder jobDescription)"
proof -
  let ?ws = "filteredWords jobDescription"
  let ?es = "entries (wordCount ?ws)"
  let ?k = "\<lambda>e. - int (count_list ?ws (fst e))"
  have val: "\<And>e. e \<in> set ?es \<Longrightarrow> snd e = Count (count_list ?ws (fst e))"
    using entry_wordCount [OF assms] mset_entries [of "wordCount ?ws"]
    by (metis set_mset_mset)
  have "sorted_wrt (\<lambda>a b. entries_order ?ws (fst a) (fst b)) ?es"
    by (rule entries_sorted) (rule keys_wordCount_order)
  then have "sorted_wrt (\<lambda>a b. ?k a < ?k b \<or> (?k a = ?k b \<and> entries_order ?ws (fst a) (fst b)))
      (sort_key ?k ?es)"
    by (rule sort_key_lex)
  moreover have "sort_by byCount ?es = sort_key ?k ?es"
    by (rule sort_by_byCount) (rule val)
  ultimately have "sorted_wrt (\<lambda>a b. ranked_order ?ws (fst a) (fst b)) (sort_by byCount ?es)"
    by (auto simp: ranked_order_def elim: sorted_wrt_mono_rel [rotated])
  then have "sorted_wrt (\<lambda>a b. ranked_order ?ws (fst a) (fst b)) (take 15 (sort_by byCount ?es))"
    by (rule sorted_wrt_take)
  then show ?thesis
    by (simp add: extractKeywords_numeric [OF assms] sorted_wrt_map)
qed

lemma count_list_filter: "P a \<Longrightarrow> count_list (filter P ws) a = count_list ws a"
  by (induction ws) auto

lemma takeWhile_filter:
  "P b \<Longrightarrow> takeWhile (\<lambda>v. v \<noteq> b) (filter P ws) = filter P (takeWhile (\<lambda>v. v \<noteq> b) ws)"
  by (induction ws) auto

lemma seen_before_filter:
  "P a \<Longrightarrow> P b \<Longrightarrow> seen_before (filter P ws) a b = seen_before ws a b"
  by (simp add: seen_before_def takeWhile_filter)

lemma ranked_order_filter:
  "P a \<Longrightarrow> P b \<Longrightarrow> ranked_order (filter P ws) a b = ranked_order ws a b"
  by (simp add: ranked_order_def entries_order_def seen_before_filter count_list_filter)

lemma extractKeywords_subset:
  assumes "''constructor'' \<notin> set (filteredWords jobDescription)"
  shows "set (extractKeywords engineOrder jobDescription) \<subseteq> set (filteredWords jobDescription)"
proof -
  let ?ws = "filteredWords jobDescription"
  have "mset (map fst (sort_by byCount (entries (wordCount ?ws)))) = mset (map fst (wordCount ?ws))"
    unfolding mset_map mset_sort_by mset_entries ..
  then have "set (map fst (sort_by byCount (entries (wordCount ?ws)))) = set ?ws"
    using keys_wordCount(2) [of ?ws] by (metis set_mset_mset)
  then show ?thesis
    using set_take_subset [of 15 "map fst (sort_by byCount (entries (wordCount ?ws)))"]
    by (simp add: extractKeywords_numeric [OF assms] take_map)
qed

text \<open>
  Claim C6, as amended. For every text whose tokens do not include the word
  \<open>constructor\<close>, and whatever the engine: in the list of keywords a token never follows
  a less frequent one, and of two tokens of one frequency, a token that is an array index
  comes before one that is not, array indices stand by ascending value, and the other
  tokens in the order of their first occurrence in the stream of tokens. So when no
  token is an array index, the order is the claimed one.
\<close>

theorem extractKeywords_order:
  assumes "''constructor'' \<notin> set (words_of jobDescription)"
  shows "sorted_wrt (ranked_order (words_of jobDescription))
      (extractKeywords engineOrder jobDescription) \<and>
    ((\<forall>w \<in> set (words_of jobDescription). \<not> isArrayIndex w) \<longrightarrow>
      sorted_wrt (frequency_order (words_of jobDescription))
        (extractKeywords engineOrder jobDescription))"
proof -
  let ?P = "\<lambda>word. length word > 3 \<and> word \<notin> set commonWords"
  let ?ws = "words_of jobDescription"
  let ?ks = "extractKeywords engineOrder jobDescription"
  have fw: "filteredWords jobDescription = filter ?P ?ws"
    by (simp add: filteredWords_def)
  have nc: "''constructor'' \<notin> set (filteredWords jobDescription)"
    using assms unfolding fw by simp
  have kept: "\<And>a. a \<in> set ?ks \<Longrightarrow> ?P a \<and> a \<in> set ?ws"
    using extractKeywords_subset [OF nc, of engineOrder] unfolding fw by auto
  have "sorted_wrt (ranked_order (filter ?P ?ws)) ?ks"
    unfolding fw [symmetric] using nc by (rule extractKeywords_ranked)
  then have ranked: "sorted_wrt (ranked_order ?ws) ?ks"
    by (rule sorted_wrt_mono_rel [rotated]) (use kept in \<open>simp add: ranked_order_filter\<close>)
  have "sorted_wrt (frequency_order ?ws) ?ks"
    if "\<forall>w \<in> set ?ws. \<not> isArrayIndex w"
    using ranked
    by (rule sorted_wrt_mono_rel [rotated])
      (use kept that in \<open>auto simp: ranked_order_def frequency_order_def entries_order_def\<close>)
  with ranked show ?thesis by blast
qed

theorem extractKeywords_order_witness:
  "''constructor'' \<notin> set (words_of ''Senior Python developer, Python and SQL'') \<and>
   sorted_wrt (ranked_order (words_of ''Senior Python developer, Python and SQL''))
     (extractKeywords insertionEngine ''Senior Python developer, Python and SQL'') \<and>
   sorted_wrt (frequency_order (words_of ''Senior Python developer, Python and SQL''))
     (extractKeywords insertionEngine ''Senior Python developer, Python and SQL'')"
proof -
  have w: "words_of ''Senior Python developer, Python and SQL''
     = [''senior'', ''python'', ''developer'', ''python'', ''and'', ''sql'']"
    by code_simp
  have nc: "''constructor'' \<notin> set (words_of ''Senior Python developer, Python and SQL'')"
    unfolding w by simp
  have ni: "\<forall>w \<in> set (words_of ''Senior Python developer, Python and SQL''). \<not> isArrayIndex w"
    unfolding w by (simp add: isArrayIndex_def isDigit_def)
  from extractKeywords_order [OF nc, of insertionEngine] ni nc show ?thesis by blast
qed

text \<open>
  Claim C6, as stated, fails: in \<open>java 2024 1999\<close> the three tokens occur once each and
  \<open>java\<close> is seen first, yet the keywords are \<open>1999\<close>, \<open>2024\<close>, \<open>java\<close>.
\<close>

theorem array_index_keywords_first:
  "words_of ''java 2024 1999'' = [''java'', ''2024'', ''1999''] \<and>
   extractKeywords insertionEngine ''java 2024 1999'' = [''1999'', ''2024'', ''java''] \<and>
   \<not> sorted_wrt (frequency_order (words_of ''java 2024 1999''))
       (extractKeywords insertionEngine ''java 2024 1999'')"
proof -
  have w: "words_of ''java 2024 1999'' = [''java'', ''2024'', ''1999'']"
    by code_simp
  have f: "filteredWords ''java 2024 1999'' = [''java'', ''2024'', ''1999'']"
    by code_simp
  have c: "wordCount [''java'', ''2024'', ''1999'']
     = [(''java'', Count 1), (''2024'', Count 1), (''1999'', Count 1)]"
    by code_simp
  have e: "entries [(''java'', Count 1), (''2024'', Count 1), (''1999'', Count 1)]
     = [(''1999'', Count 1), (''2024'', Count 1), (''java'', Count 1)]"
    by (simp add: entries_def isArrayIndex_def isDigit_def indexValue_def)
  have s: "sortEntries insertionEngine [(''1999'', Count 1), (''2024'', Count 1), (''java'', Count 1)]
     = [(''1999'', Count 1), (''2024'', Count 1), (''java'', Count 1)]"
    by (simp add: sortEntries_def byCount_def)
  have k: "extractKeywords insertionEngine ''java 2024 1999'' = [''1999'', ''2024'', ''java'']"
    unfolding extractKeywords_def f c e s by simp
  have "\<not> frequency_order [''java'', ''2024'', ''1999''] ''1999'' ''2024''"
    by (simp add: frequency_order_def seen_before_def)
  then have "\<not> sorted_wrt (frequency_order [''java'', ''2024'', ''1999''])
       [''1999'', ''2024'', ''java'']"
    by simp
  with w k show ?thesis by simp
qed

subsection \<open>Keywords without metacharacters\<close>

lemma parse_quantifier_plain:
  "set s \<inter> set metacharacters = {} \<Longrightarrow> parse_quantifier s = Inr (Once, True, s)"
  by (cases s) (auto simp: metacharacters_def quantifier_char_def)

lemma parse_terms_plain:
  "set s \<inter> set metacharacters = {} \<Longrightarrow>
   parse_terms s alt alts = Inr (alts @ [alt @ map lit s])"
proof (induction s arbitrary: alt)
  case Nil
  show ?case by simp
next
  case (Cons c s)
  then have rest: "set s \<inter> set metacharacters = {}" by auto
  have c: "c \<notin> set metacharacters" using Cons.prems by auto
  then have "parse_atom c s = Inr (Lit c, s)"
    by (auto simp: parse_atom_def metacharacters_def)
  moreover have "quantifier_char c = None" "c \<noteq> CHR ''|''" "c \<noteq> CHR '')''"
    "c \<notin> set [CHR 0x5C, CHR ''('', CHR ''{'', CHR ''^'', CHR ''$'']"
    using c by (auto simp: metacharacters_def quantifier_char_def)
  ultimately show ?case
    using Cons.IH [OF rest, of "alt @ [lit c]"] parse_quantifier_plain [OF rest]
    by (simp add: lit_def)
qed

lemma of_char_lowerChar:
  "(of_char (lowerChar c) :: nat)
     = (if isUpperLetter c then of_char c + 32 else of_char c)"
proof (cases "isUpperLetter c")
  case True
  then have "((of_char c :: nat) + 32) mod 256 = of_char c + 32"
    unfolding isUpperLetter_def by (intro mod_less) arith
  with True show ?thesis by (simp add: lowerChar_def)
next
  case False
  then show ?thesis by (simp add: lowerChar_def)
qed

lemma upper_plus_32:
  fixes n :: nat
  assumes "(65 \<le> n \<and> n \<le> 90) \<or> (192 \<le> n \<and> n \<le> 222 \<and> n \<noteq> 215)"
  shows "(97 \<le> n + 32 \<and> n + 32 \<le> 122) \<or> (224 \<le> n + 32 \<and> n + 32 \<le> 254 \<and> n + 32 \<noteq> 247)"
    and "n + 32 \<noteq> 255" and "n + 32 \<noteq> 181" and "n \<noteq> 255" and "n \<noteq> 181"
    and "\<not> ((97 \<le> n \<and> n \<le> 122) \<or> (224 \<le> n \<and> n \<le> 254 \<and> n \<noteq> 247))"
    and "\<not> ((65 \<le> n + 32 \<and> n + 32 \<le> 90) \<or> (192 \<le> n + 32 \<and> n + 32 \<le> 222 \<and> n + 32 \<noteq> 215))"
  using assms by auto

lemma canon_cases:
  fixes a :: nat
  assumes "\<not> ((65 \<le> a \<and> a \<le> 90) \<or> (192 \<le> a \<and> a \<le> 222 \<and> a \<noteq> 215))"
    and "a < 256"
    and "c = (if a = 255 then 376 else if a = 181 then 924
          else if (97 \<le> a \<and> a \<le> 122) \<or> (224 \<le> a \<and> a \<le> 254 \<and> a \<noteq> 247) then a - 32 else a)"
  shows "(if c = 376 then 255 else if c = 924 then 181
          else if (65 \<le> c \<and> c \<le> 90) \<or> (192 \<le> c \<and> c \<le> 222 \<and> c \<noteq> 215) then c + 32 else c) = a"
  using assms by auto

lemma lower_minus_32:
  fixes n :: nat
  assumes "(97 \<le> n \<and> n \<le> 122) \<or> (224 \<le> n \<and> n \<le> 254 \<and> n \<noteq> 247)"
  shows "\<not> (128 \<le> n \<and> n - 32 < 128)" and "n \<noteq> 223"
  using assms by auto

lemma canonicalize_nat:
  "canonicalize c
     = (if (of_char c :: nat) = 255 then 376
        else if (of_char c :: nat) = 181 then 924
        else if isLowerLetter c then of_char c - 32
        else of_char c)"
proof (cases "isLowerLetter c")
  case True
  then have "\<not> (128 \<le> (of_char c :: nat) \<and> (of_char c :: nat) - 32 < 128)"
    and "(of_char c :: nat) \<noteq> 223" and "(of_char c :: nat) \<noteq> 255" and "(of_char c :: nat) \<noteq> 181"
    unfolding isLowerLetter_def by auto
  with True show ?thesis
    by (simp add: canonicalize_def upperUnits_def)
next
  case False
  then show ?thesis
    by (simp add: canonicalize_def upperUnits_def)
qed

lemma lowerChar_not_upper: "\<not> isUpperLetter (lowerChar c)"
proof (cases "isUpperLetter c")
  case True
  with upper_plus_32(7) [of "of_char c"] show ?thesis
    unfolding isUpperLetter_def [of "lowerChar c"] of_char_lowerChar
    by (simp add: isUpperLetter_def)
next
  case False
  then show ?thesis by (simp add: lowerChar_def)
qed

lemma canonicalize_lowerChar: "canonicalize (lowerChar c) = canonicalize c"
proof (cases "isUpperLetter c")
  case True
  then have u: "(65 \<le> (of_char c :: nat) \<and> (of_char c :: nat) \<le> 90) \<or>
      (192 \<le> (of_char c :: nat) \<and> (of_char c :: nat) \<le> 222 \<and> (of_char c :: nat) \<noteq> 215)"
    by (simp add: isUpperLetter_def)
  have low: "(of_char (lowerChar c) :: nat) = of_char c + 32"
    using True by (simp add: of_char_lowerChar)
  have "isLowerLetter (lowerChar c)"
    unfolding isLowerLetter_def low by (rule upper_plus_32(1) [OF u])
  moreover have "\<not> isLowerLetter c"
    unfolding isLowerLetter_def by (rule upper_plus_32(6) [OF u])
  ultimately show ?thesis
    unfolding canonicalize_nat low
    using upper_plus_32(2,3,4,5) [OF u] by simp
next
  case False
  then show ?thesis by (simp add: lowerChar_def)
qed

lemma canonicalize_inj:
  assumes "\<not> isUpperLetter a" and "\<not> isUpperLetter b" and "canonicalize a = canonicalize b"
  shows "a = b"
proof -
  let ?g = "\<lambda>c :: nat. if c = 376 then 255 else if c = 924 then 181
          else if (65 \<le> c \<and> c \<le> 90) \<or> (192 \<le> c \<and> c \<le> 222 \<and> c \<noteq> 215) then c + 32 else c"
  have inv: "?g (canonicalize x) = of_char x" if "\<not> isUpperLetter x" for x
    by (rule canon_cases [of "of_char x"])
      (use that in \<open>simp_all add: isUpperLetter_def canonicalize_nat isLowerLetter_def\<close>)
  have "(of_char a :: nat) = ?g (canonicalize a)" using inv [OF assms(1)] by simp
  also have "\<dots> = ?g (canonicalize b)" using assms(3) by simp
  also have "\<dots> = of_char b" using inv [OF assms(2)] by simp
  finally show ?thesis by simp
qed

lemma same_case: "(canonicalize c = canonicalize d) = (lowerChar c = lowerChar d)"
proof
  assume "canonicalize c = canonicalize d"
  then have "canonicalize (lowerChar c) = canonicalize (lowerChar d)"
    by (simp add: canonicalize_lowerChar)
  then show "lowerChar c = lowerChar d"
    by (rule canonicalize_inj [OF lowerChar_not_upper lowerChar_not_upper])
next
  assume "lowerChar c = lowerChar d"
  then have "canonicalize (lowerChar c) = canonicalize (lowerChar d)" by simp
  then show "canonicalize c = canonicalize d"
    by (simp add: canonicalize_lowerChar)
qed

lemma match_alternative_plain:
  "match_alternative (map lit k) s
     = (if startsWith (toLowerCase s) (toLowerCase k) then [drop (length k) s] else [])"
proof (induction k arbitrary: s)
  case Nil
  show ?case by (simp add: toLowerCase_def)
next
  case (Cons c k)
  show ?case
  proof (cases s)
    case Nil
    then show ?thesis by (simp add: lit_def toLowerCase_def)
  next
    case (Cons d s')
    with Cons.IH [of s'] show ?thesis
      by (auto simp: lit_def toLowerCase_def same_case)
  qed
qed

lemma count_matches_plain: "count_matches [map lit k] s = occurrences k s"
proof (induction k s rule: occurrences.induct)
  case (1 k)
  have "startsWith [] (toLowerCase k) = (k = [])"
    by (cases k) (simp_all add: toLowerCase_def)
  then have "match_pattern [map lit k] [] = (if k = [] then [[]] else [])"
    by (simp add: match_pattern_def match_alternative_plain toLowerCase_def)
  then show ?case
    by (subst count_matches.simps) simp
next
  case (2 k c s)
  show ?case
  proof (cases "startsWith (toLowerCase (c # s)) (toLowerCase k)")
    case True
    then have m: "match_pattern [map lit k] (c # s) = [drop (length k) (c # s)]"
      by (simp add: match_pattern_def match_alternative_plain)
    show ?thesis
    proof (cases k)
      case Nil
      with True m "2.IH"(1) show ?thesis
        by (subst count_matches.simps) simp
    next
      case (Cons a k')
      with True m "2.IH"(1) show ?thesis
        by (subst count_matches.simps) (simp add: less_Suc_eq_le)
    qed
  next
    case False
    then have "match_pattern [map lit k] (c # s) = []"
      by (simp add: match_pattern_def match_alternative_plain)
    with False "2.IH"(2) show ?thesis
      by (subst count_matches.simps) simp
  qed
qed

lemma RegExp_gi_plain:
  assumes "set k \<inter> set metacharacters = {}"
  shows "RegExp_gi k = Inr (occurrences k)"
proof -
  have "parse_pattern k = Inr [map lit k]"
    using parse_terms_plain [OF assms, of "[]" "[]"] by (simp add: parse_pattern_def)
  then show ?thesis
    by (simp add: RegExp_gi_def count_matches_plain [abs_def])
qed

lemma scoreSection_plain:
  assumes "\<And>k. k \<in> set kws \<Longrightarrow> set k \<inter> set metacharacters = {}"
  shows "scoreSection RegExp_gi sec kws sc = Inr (sc + sum_list (map (\<lambda>k. occurrences k sec) kws))"
  using assms
proof (induction kws arbitrary: sc)
  case Nil
  show ?case by simp
next
  case (Cons k kws)
  then have "RegExp_gi k = Inr (occurrences k)"
    by (simp add: RegExp_gi_plain)
  with Cons show ?case by simp
qed

text \<open>
  For keywords in which no character has a meaning of its own in a pattern, the scoring
  step never fails and the score of a section is the number of occurrences of the
  keywords in it, as the specification counts them.
\<close>

theorem plain_keywords_score:
  assumes "\<forall>keyword \<in> set keywords. set keyword \<inter> set metacharacters = {}"
  shows "scoredSections RegExp_gi sections keywords
    = Inr (map (\<lambda>sec. \<lparr>section' = sec,
                       score = sum_list (map (\<lambda>keyword. occurrences keyword sec) keywords)\<rparr>)
             sections)"
proof (induction sections)
  case Nil
  show ?case by simp
next
  case (Cons sec sections)
  have "scoreSection RegExp_gi sec keywords 0
      = Inr (sum_list (map (\<lambda>keyword. occurrences keyword sec) keywords))"
    using scoreSection_plain [of "keywords" sec 0] assms by simp
  with Cons show ?case by simp
qed

theorem plain_keywords_score_witness:
  "scoredSections RegExp_gi [''a python'', ''Python python''] [''python'', ''java'']
     = Inr [\<lparr>section' = ''a python'', score = 1\<rparr>, \<lparr>section' = ''Python python'', score = 2\<rparr>]"
proof -
  have 1: "\<forall>keyword \<in> set [''python'', ''java'']. set keyword \<inter> set metacharacters = {}"
    by (simp add: metacharacters_def)
  have 2: "sum_list [occurrences ''python'' ''a python'', occurrences ''java'' ''a python''] = 1"
    by code_simp
  have 3: "sum_list [occurrences ''python'' ''Python python'',
      occurrences ''java'' ''Python python''] = 2"
    by code_simp
  show ?thesis
    using plain_keywords_score [OF 1, of "[''a python'', ''Python python'']"]
    by (simp only: list.map 2 3)
qed

end
